theory Spec2Isabelle
  imports Main "HOL-Library.Stream"
begin

unbundle bit_operations_syntax

section \<open>Template parameters and constants\<close>

text \<open>
  Both classes are templates over \<open>probability_type_t\<close> (the counter type) and
  \<open>max_range_type_t\<close> (the type of the working range). The counter type ranges over the
  unsigned types of 8, 16 and 32 bits, the range type over those of 32 and 64 bits: a
  range type narrower than \<open>int\<close> would be promoted by C++ before every operation, and
  the coder wants a range type at least as wide as the counter type. Values of both
  types are natural numbers, with the wrap-around of the unsigned arithmetic written out.
\<close>

datatype probability_type_t = P_uint8 | P_uint16 | P_uint32

datatype max_range_type_t = R_uint32 | R_uint64

fun sizeof_p :: "probability_type_t \<Rightarrow> nat" where
  "sizeof_p P_uint8 = 1"
| "sizeof_p P_uint16 = 2"
| "sizeof_p P_uint32 = 4"

fun sizeof_r :: "max_range_type_t \<Rightarrow> nat" where
  "sizeof_r R_uint32 = 4"
| "sizeof_r R_uint64 = 8"

text \<open>The modulus of the range type: arithmetic on it is modulo \<open>2 ^ range_bits R\<close>.\<close>

definition range_bits :: "max_range_type_t \<Rightarrow> nat" where
  "range_bits R = 8 * sizeof_r R"

definition k_max_bits :: "probability_type_t \<Rightarrow> nat" where
  "k_max_bits P = push_bit 3 (sizeof_p P)"

definition k_hi_bit :: "probability_type_t \<Rightarrow> nat" where
  "k_hi_bit P = k_max_bits P - 1"

definition k_low_bit :: "probability_type_t \<Rightarrow> nat" where
  "k_low_bit P = k_max_bits P - 2"

definition k_low_bit_mask :: "probability_type_t \<Rightarrow> nat" where
  "k_low_bit_mask P = push_bit (k_max_bits P - 2) 1 - 1"

definition k_low_bit_val :: "probability_type_t \<Rightarrow> nat" where
  "k_low_bit_val P = push_bit (k_max_bits P - 2) 1"

definition k_hi_bit_mask :: "probability_type_t \<Rightarrow> nat" where
  "k_hi_bit_mask P = push_bit (k_max_bits P - 1) 1 - 1"

definition k_hi_bit_val :: "probability_type_t \<Rightarrow> nat" where
  "k_hi_bit_val P = push_bit (k_max_bits P - 1) 1"

definition k_max_range :: "probability_type_t \<Rightarrow> nat" where
  "k_max_range P = k_low_bit_mask P"

definition k_probability_range_mask :: "probability_type_t \<Rightarrow> nat" where
  "k_probability_range_mask P = 2 ^ k_max_bits P - 1"

text \<open>Unsigned arithmetic of the range type and of the counter type.\<close>

definition r_add :: "max_range_type_t \<Rightarrow> nat \<Rightarrow> nat \<Rightarrow> nat" where
  "r_add R a b = (a + b) mod 2 ^ range_bits R"

definition r_sub :: "max_range_type_t \<Rightarrow> nat \<Rightarrow> nat \<Rightarrow> nat" where
  "r_sub R a b = (a + (2 ^ range_bits R - b mod 2 ^ range_bits R)) mod 2 ^ range_bits R"

definition r_mul :: "max_range_type_t \<Rightarrow> nat \<Rightarrow> nat \<Rightarrow> nat" where
  "r_mul R a b = (a * b) mod 2 ^ range_bits R"

definition r_shl1 :: "max_range_type_t \<Rightarrow> nat \<Rightarrow> nat" where
  "r_shl1 R a = push_bit 1 a mod 2 ^ range_bits R"

definition p_add :: "probability_type_t \<Rightarrow> nat \<Rightarrow> nat \<Rightarrow> nat" where
  "p_add P a b = (a + b) mod 2 ^ k_max_bits P"

text \<open>
  What the source leaves undefined is an error value of the model: a call through a null
  pointer, a read or write outside the model array, a division by zero.
\<close>

datatype error = NullPointer | OutOfBounds | DivByZero

section \<open>The bit stream\<close>

text \<open>
  Modelled from the spec: the writer and the reader of \<open>bit_streams.hpp\<close> are not among
  the sources. \<open>write(value, nbits)\<close> appends the low \<open>nbits\<close> bits of \<open>value\<close>, most
  significant first; the sink is the list of the bits written so far.
\<close>

definition stream_write :: "nat \<Rightarrow> nat \<Rightarrow> bool list \<Rightarrow> bool list" where
  "stream_write v n out = out @ map (bit v) (rev [0..<n])"

text \<open>
  Modelled from the spec: \<open>read(1)\<close> returns the next bit of the source, the list of the
  bits not yet read. The spec does not say what is read past the last bit; the model
  reads 0 there.
\<close>

fun read1 :: "bool list \<Rightarrow> nat \<times> bool list" where
  "read1 [] = (0, [])"
| "read1 (b # bs) = (of_bool b, bs)"

section \<open>The encoder: \<open>scalable_ac_c\<close>\<close>

record scalable_ac_state_t =
  high :: nat
  low :: nat
  underflow_count :: nat
  tmp_range :: nat
  max_syms :: nat
  probability :: "nat list"
  flushed :: bool

text \<open>
  The members of the class. \<open>m_stream\<close> is the pointer to the writer: \<open>None\<close> is the null
  pointer, \<open>Some out\<close> a writer that has written \<open>out\<close>. \<open>m_probability\<close> is the pointer
  to the model array, \<open>None\<close> when null.
\<close>

record scalable_ac_c =
  m_stream :: "bool list option"
  m_high :: nat
  m_low :: nat
  m_underflow_count :: nat
  m_tmp_range :: nat
  m_max_syms :: nat
  m_probability :: "nat list option"
  m_flushed :: bool

text \<open>The constructor: no stream, no model, the full range.\<close>

definition scalable_ac_c_new :: "probability_type_t \<Rightarrow> scalable_ac_c" where
  "scalable_ac_c_new P =
     \<lparr>m_stream = None, m_high = 2 ^ k_max_bits P - 1, m_low = 0, m_underflow_count = 0,
      m_tmp_range = 0, m_max_syms = 0, m_probability = None, m_flushed = False\<rparr>"

text \<open>
  The burst that empties the underflow counter:
  \<^verbatim>\<open>for (;m_underflow_count >= 64U;m_underflow_count -= 64U) m_stream->write(uf_mask,64U);
  if (m_underflow_count) m_stream->write(uf_mask,m_underflow_count);\<close>
\<close>

function write_underflow :: "nat \<Rightarrow> nat \<Rightarrow> bool list \<Rightarrow> bool list" where
  "write_underflow uf_mask uf out =
     (if uf \<ge> 64 then write_underflow uf_mask (uf - 64) (stream_write uf_mask 64 out)
      else if uf \<noteq> 0 then stream_write uf_mask uf out
      else out)"
  by pat_completeness auto
termination
  by (relation "measure (\<lambda>(uf_mask, uf, out). uf)") auto

declare write_underflow.simps [simp del]

definition uf_mask_of :: "nat \<Rightarrow> nat" where
  "uf_mask_of bstate = (if bstate \<noteq> 0 then 2 ^ 64 - 1 else 0)"

definition flush :: "probability_type_t \<Rightarrow> max_range_type_t \<Rightarrow> bool \<Rightarrow> scalable_ac_c
    \<Rightarrow> bool \<times> scalable_ac_c" where
  "flush P R force st =
     (case m_stream st of
        None \<Rightarrow> (False, st)
      | Some out \<Rightarrow>
          if \<not> m_flushed st \<or> force then
            let uf = r_add R (m_underflow_count st) 1;
                out1 = stream_write (drop_bit (k_low_bit P) (m_low st) AND 1) 1 out;
                bstate = (drop_bit (k_low_bit P) (m_low st) XOR 1) AND 1;
                out2 = write_underflow (uf_mask_of bstate) uf out1
            in (False, st\<lparr>m_stream := Some out2, m_underflow_count := 0, m_flushed := True\<rparr>)
          else (False, st))"


subsection \<open>Snapshots\<close>

text \<open>
  The loop \<^verbatim>\<open>for (i = 0;i <= m_max_syms;++i) dst[i] = src[i];\<close> writes the first
  \<open>n + 1\<close> entries of \<open>src\<close> over those of \<open>dst\<close>; it leaves both arrays when either is
  shorter.
\<close>

definition copy_model :: "nat \<Rightarrow> nat list \<Rightarrow> nat list \<Rightarrow> error + nat list" where
  "copy_model n src dst =
     (if n < length src \<and> n < length dst then Inr (take (Suc n) src @ drop (Suc n) dst)
      else Inl OutOfBounds)"

text \<open>\<open>new probability_type_t[n]\<close>: the contents of a fresh array are not initialised;
  the model fills it with zeros.\<close>

definition new_array :: "nat \<Rightarrow> nat list" where
  "new_array n = replicate n 0"

definition save_state :: "max_range_type_t \<Rightarrow> scalable_ac_c \<Rightarrow> error + scalable_ac_state_t" where
  "save_state R st =
     (case m_probability st of
        None \<Rightarrow> Inl NullPointer
      | Some C \<Rightarrow>
          (case copy_model (m_max_syms st) C (new_array (r_add R (m_max_syms st) 1)) of
             Inl e \<Rightarrow> Inl e
           | Inr C' \<Rightarrow>
               Inr \<lparr>high = m_high st, low = m_low st,
                    underflow_count = m_underflow_count st, tmp_range = m_tmp_range st,
                    max_syms = m_max_syms st, probability = C', flushed = m_flushed st\<rparr>))"

text \<open>
  \<open>restore_state(state, cleanup)\<close>; \<open>None\<close> is the null snapshot. \<open>cleanup\<close> frees the
  snapshot, which the encoder does not see.
\<close>

definition restore_state :: "max_range_type_t \<Rightarrow> scalable_ac_state_t option \<Rightarrow> bool
    \<Rightarrow> scalable_ac_c \<Rightarrow> error + bool \<times> scalable_ac_c" where
  "restore_state R state cleanup st =
     (case state of
        None \<Rightarrow> Inr (False, st)
      | Some s \<Rightarrow>
          (let st1 = (if m_max_syms st \<noteq> max_syms s
                      then st\<lparr>m_probability := Some (new_array (r_add R (max_syms s) 1)),
                              m_max_syms := max_syms s\<rparr>
                      else st)
           in case m_probability st1 of
                None \<Rightarrow> Inl NullPointer
              | Some C \<Rightarrow>
                  (case copy_model (m_max_syms st1) (probability s) C of
                     Inl e \<Rightarrow> Inl e
                   | Inr C' \<Rightarrow>
                       Inr (True, st1\<lparr>m_probability := Some C', m_high := high s,
                              m_low := low s, m_underflow_count := underflow_count s,
                              m_max_syms := max_syms s, m_flushed := flushed s,
                              m_tmp_range := tmp_range s\<rparr>))))"

subsection \<open>The model: init, expand, adaptive increment, rescale\<close>

text \<open>\<^verbatim>\<open>for (i = 0;i <= max_symbols;i++) m_probability[i] = i;\<close> stores each index in the
  counter type. The array has \<open>max_symbols + 1\<close> entries, the sum taken in the range type:
  when it wraps the loop leaves the array.\<close>

definition init_model :: "probability_type_t \<Rightarrow> nat \<Rightarrow> nat list" where
  "init_model P max_symbols = map (\<lambda>i. i mod 2 ^ k_max_bits P) [0..<Suc max_symbols]"

definition init :: "probability_type_t \<Rightarrow> max_range_type_t \<Rightarrow> nat \<Rightarrow> bool list option
    \<Rightarrow> scalable_ac_c \<Rightarrow> error + bool \<times> scalable_ac_c" where
  "init P R max_symbols stream st0 =
     (let st = snd (flush P R False st0) in
      if stream = None \<or> max_symbols = 0 then Inr (False, st)
      else if r_add R max_symbols 1 \<le> max_symbols then Inl OutOfBounds
      else Inr (True, st\<lparr>m_high := k_probability_range_mask P, m_low := 0,
                     m_underflow_count := 0, m_tmp_range := 0, m_flushed := False,
                     m_stream := stream, m_probability := Some (init_model P max_symbols),
                     m_max_syms := max_symbols\<rparr>))"

definition expand :: "probability_type_t \<Rightarrow> max_range_type_t \<Rightarrow> nat \<Rightarrow> scalable_ac_c
    \<Rightarrow> error + bool \<times> scalable_ac_c" where
  "expand P R max_symbols st =
     (case m_probability st of
        None \<Rightarrow> Inr (False, st)
      | Some C \<Rightarrow>
          if max_symbols \<le> m_max_syms st then Inr (False, st)
          else if r_add R max_symbols 1 \<le> max_symbols \<or> \<not> m_max_syms st < length C
          then Inl OutOfBounds
          else
            Inr (True, st\<lparr>m_probability :=
                   Some (take (Suc (m_max_syms st)) C @
                         map (\<lambda>i. i mod 2 ^ k_max_bits P) [Suc (m_max_syms st)..<Suc max_symbols]),
                 m_max_syms := max_symbols\<rparr>))"

text \<open>The increment \<^verbatim>\<open>do { *(p0++) += 1; } while (p0 < p1);\<close> over the entries from
  \<open>p0\<close> up to \<open>p1\<close>.\<close>

fun increment_loop :: "probability_type_t \<Rightarrow> nat list \<Rightarrow> nat list" where
  "increment_loop P [] = []"
| "increment_loop P (c # cs) = p_add P c 1 # increment_loop P cs"

text \<open>The pass of \<open>scale_model\<close> over the entries from \<open>p0\<close> up to \<open>p1\<close>, \<open>prev\<close> being
  the entry before them.\<close>

fun scale_model_loop :: "probability_type_t \<Rightarrow> nat \<Rightarrow> nat list \<Rightarrow> nat list" where
  "scale_model_loop P prev [] = []"
| "scale_model_loop P prev (c # cs) =
     (let curr = drop_bit 1 c;
          curr = (if curr \<le> prev then p_add P prev 1 else curr)
      in curr # scale_model_loop P curr cs)"

text \<open>\<open>scale_model\<close> on the array \<open>C\<close> of a coder with \<open>n = m_max_syms\<close>; \<open>p1\<close> points
  at the entry \<open>n + 1\<close>, the sum taken in the range type.\<close>

definition scale_model :: "probability_type_t \<Rightarrow> max_range_type_t \<Rightarrow> nat \<Rightarrow> nat list
    \<Rightarrow> error + nat list" where
  "scale_model P R n C =
     (case C of
        [] \<Rightarrow> Inl OutOfBounds
      | prev # rest \<Rightarrow>
          let p1 = r_add R n 1 in
          if 1 \<ge> p1 then Inr C
          else if p1 \<le> length C then
            Inr (prev # scale_model_loop P prev (take (p1 - 1) rest) @ drop (p1 - 1) rest)
          else Inl OutOfBounds)"

text \<open>
  The tail shared by \<open>encode_symbol\<close>, \<open>estimate_cost\<close> and the decoder's
  \<open>decode_symbol\<close>: increment the entries from \<open>s + 1\<close> up to \<open>n + 1\<close> (both sums in the
  range type), then rescale when the total has reached \<open>k_max_range\<close>.
\<close>

definition update_model :: "probability_type_t \<Rightarrow> max_range_type_t \<Rightarrow> nat \<Rightarrow> nat \<Rightarrow> nat list
    \<Rightarrow> error + nat list" where
  "update_model P R n s C =
     (let p0 = r_add R s 1; p1 = r_add R n 1 in
      if p0 < p1 \<and> \<not> p1 \<le> length C then Inl OutOfBounds
      else
        let C1 = (if p0 < p1
                  then take p0 C @ increment_loop P (take (p1 - p0) (drop p0 C)) @ drop p1 C
                  else C)
        in if \<not> n < length C1 then Inl OutOfBounds
           else if C1 ! n \<ge> k_max_range P then scale_model P R n C1
           else Inr C1)"

subsection \<open>Range coding\<close>

text \<open>The shift that ends each pass of the renormalisation loop.\<close>

definition shift_low :: "probability_type_t \<Rightarrow> max_range_type_t \<Rightarrow> nat \<Rightarrow> nat" where
  "shift_low P R l = r_shl1 R l AND k_probability_range_mask P"

definition shift_high :: "probability_type_t \<Rightarrow> max_range_type_t \<Rightarrow> nat \<Rightarrow> nat" where
  "shift_high P R h = (r_shl1 R h OR 1) AND k_probability_range_mask P"

text \<open>
  The measure of the renormalisation loop: \<open>low\<close> ends in \<open>j\<close> zeros and \<open>high\<close> in \<open>j\<close>
  ones for a \<open>j\<close> that grows with each pass, up to the width of the counter type.
\<close>

definition settled :: "nat \<Rightarrow> nat \<Rightarrow> nat \<Rightarrow> nat set" where
  "settled w l h = {j. j \<le> w \<and> l mod 2 ^ j = 0 \<and> h mod 2 ^ j = 2 ^ j - 1}"

definition renorm_measure :: "nat \<Rightarrow> nat \<Rightarrow> nat \<Rightarrow> nat" where
  "renorm_measure w l h =
     (if l < 2 ^ w \<and> h < 2 ^ w then w - Max (settled w l h) else w)"


text \<open>Facts about the constants, the shift and the measure.\<close>

lemma k_max_bits_cases: "k_max_bits P = 8 \<or> k_max_bits P = 16 \<or> k_max_bits P = 32"
  by (cases P) (simp_all add: k_max_bits_def)

lemma range_bits_cases: "range_bits R = 32 \<or> range_bits R = 64"
  by (cases R) (simp_all add: range_bits_def)

lemma k_max_bits_ge: "8 \<le> k_max_bits P"
  using k_max_bits_cases [of P] by auto

lemma k_max_bits_le_range_bits: "k_max_bits P \<le> range_bits R"
  using k_max_bits_cases [of P] range_bits_cases [of R] by auto

lemma k_hi_bit_val_eq: "k_hi_bit_val P = 2 ^ (k_max_bits P - 1)"
  by (simp add: k_hi_bit_val_def)

lemma k_low_bit_val_eq: "k_low_bit_val P = 2 ^ (k_max_bits P - 2)"
  by (simp add: k_low_bit_val_def)

lemma k_low_bit_mask_eq: "k_low_bit_mask P = mask (k_max_bits P - 2)"
  by (simp add: k_low_bit_mask_def mask_eq_exp_minus_1)

lemma k_probability_range_mask_eq: "k_probability_range_mask P = mask (k_max_bits P)"
  by (simp add: k_probability_range_mask_def mask_eq_exp_minus_1)

lemma and_exp_eq_if: "x AND 2 ^ n = (if bit x n then 2 ^ n else 0)" for x :: nat
  by (rule bit_eqI) (auto simp add: bit_simps)

lemma and_exp_eq_iff: "(x AND 2 ^ n = y AND 2 ^ n) \<longleftrightarrow> (bit x n \<longleftrightarrow> bit y n)" for x y :: nat
  by (simp add: and_exp_eq_if)

lemma and_exp_neq_0_iff: "(x AND 2 ^ n \<noteq> 0) \<longleftrightarrow> bit x n" for x :: nat
  by (simp add: and_exp_eq_0_iff_not_bit)

lemma shift_low_eq: "shift_low P R l = (2 * l) mod 2 ^ k_max_bits P"
proof -
  have "shift_low P R l = take_bit (k_max_bits P) (take_bit (range_bits R) (push_bit 1 l))"
    by (simp add: shift_low_def r_shl1_def k_probability_range_mask_eq take_bit_eq_mod
        flip: take_bit_eq_mask)
  also have "\<dots> = take_bit (k_max_bits P) (push_bit 1 l)"
    using k_max_bits_le_range_bits [of P R] by (simp add: min_def)
  also have "push_bit 1 l = 2 * l"
    by (simp add: push_bit_eq_mult)
  finally show ?thesis by (simp only: take_bit_eq_mod)
qed

lemma shift_high_eq: "shift_high P R h = (2 * h + 1) mod 2 ^ k_max_bits P"
proof -
  have "shift_high P R h = take_bit (k_max_bits P) (take_bit (range_bits R) (push_bit 1 h) OR 1)"
    by (simp add: shift_high_def r_shl1_def k_probability_range_mask_eq take_bit_eq_mod
        flip: take_bit_eq_mask)
  also have "\<dots> = take_bit (k_max_bits P) (push_bit 1 h OR 1)"
    using k_max_bits_le_range_bits [of P R] k_max_bits_ge [of P]
    by (auto simp add: bit_eq_iff bit_simps)
  also have "push_bit 1 h = 2 * h"
    by (simp add: push_bit_eq_mult)
  also have "2 * h OR 1 = 2 * h + 1"
    using or_one_eq [of "2 * h"] by simp
  finally show ?thesis by (simp only: take_bit_eq_mod)
qed

lemma bit_shift_low: "bit (shift_low P R l) i \<longleftrightarrow> i < k_max_bits P \<and> 0 < i \<and> bit l (i - 1)"
  by (simp add: shift_low_eq bit_take_bit_iff bit_double_iff flip: take_bit_eq_mod)

lemma bit_shift_high: "bit (shift_high P R h) i \<longleftrightarrow> i < k_max_bits P \<and> (i = 0 \<or> bit h (i - 1))"
proof -
  have "2 * h + 1 = 2 * h OR 1"
    using or_one_eq [of "2 * h"] by simp
  then have "bit (2 * h + 1) i \<longleftrightarrow> i = 0 \<or> bit h (i - 1)"
    by (simp only: bit_or_iff bit_double_iff bit_1_iff) auto
  then show ?thesis
    by (simp only: shift_high_eq bit_take_bit_iff flip: take_bit_eq_mod)
qed

lemma settled_0: "0 \<in> settled w l h"
  by (simp add: settled_def)

lemma finite_settled: "finite (settled w l h)"
  by (simp add: settled_def)

lemma Max_settled_le: "Max (settled w l h) \<le> w"
proof -
  have "Max (settled w l h) \<in> settled w l h"
    using Max_in [OF finite_settled] settled_0 by blast
  then show ?thesis unfolding settled_def by blast
qed

lemma renorm_measure_le: "renorm_measure w l h \<le> w"
  by (simp add: renorm_measure_def)

lemma renorm_measure_decreases:
  assumes new: "l' < 2 ^ w" "h' < 2 ^ w"
    and one: "1 \<in> settled w l' h'"
    and step: "\<And>j. j \<in> settled w l h \<Longrightarrow> l < 2 ^ w \<Longrightarrow> h < 2 ^ w \<Longrightarrow> j < w \<and> Suc j \<in> settled w l' h'"
  shows "renorm_measure w l' h' < renorm_measure w l h"
proof (cases "l < 2 ^ w \<and> h < 2 ^ w")
  case True
  let ?M = "Max (settled w l h)"
  have "?M \<in> settled w l h"
    using Max_in [OF finite_settled] settled_0 by blast
  with step True have "?M < w" and "Suc ?M \<in> settled w l' h'"
    by blast+
  then have "Suc ?M \<le> Max (settled w l' h')"
    using Max_ge [OF finite_settled] by blast
  with \<open>?M < w\<close> True new Max_settled_le [of w l' h'] show ?thesis
    by (simp add: renorm_measure_def)
next
  case False
  have "1 \<le> Max (settled w l' h')"
    using Max_ge [OF finite_settled one] .
  moreover have "1 \<le> w"
    using one by (simp add: settled_def)
  ultimately show ?thesis
    using False new by (auto simp add: renorm_measure_def)
qed


lemma take_bit_eq_0_iff_bits: "take_bit j l = 0 \<longleftrightarrow> (\<forall>i<j. \<not> bit l i)" for l :: nat
proof
  assume "take_bit j l = 0"
  then have "bit (take_bit j l) i = bit (0::nat) i" for i
    by simp
  then show "\<forall>i<j. \<not> bit l i"
    by (simp add: bit_take_bit_iff)
next
  assume "\<forall>i<j. \<not> bit l i"
  then show "take_bit j l = 0"
    by (intro bit_eqI) (simp add: bit_take_bit_iff)
qed

lemma take_bit_eq_mask_iff_bits: "take_bit j h = mask j \<longleftrightarrow> (\<forall>i<j. bit h i)" for h :: nat
proof
  assume "take_bit j h = mask j"
  then have "bit (take_bit j h) i = bit (mask j :: nat) i" for i
    by simp
  then have "(i < j \<and> bit h i) = (i < j)" for i
    by (simp add: bit_take_bit_iff bit_mask_iff)
  then show "\<forall>i<j. bit h i"
    by blast
next
  assume "\<forall>i<j. bit h i"
  then show "take_bit j h = mask j"
    by (intro bit_eqI) (auto simp add: bit_take_bit_iff bit_mask_iff)
qed

lemma settled_iff:
  "j \<in> settled w l h \<longleftrightarrow> j \<le> w \<and> (\<forall>i<j. \<not> bit l i \<and> bit h i)"
proof -
  have "l mod 2 ^ j = 0 \<longleftrightarrow> (\<forall>i<j. \<not> bit l i)"
    by (simp only: take_bit_eq_0_iff_bits flip: take_bit_eq_mod)
  moreover have "h mod 2 ^ j = 2 ^ j - 1 \<longleftrightarrow> (\<forall>i<j. bit h i)"
    by (simp only: take_bit_eq_mask_iff_bits flip: take_bit_eq_mod mask_eq_exp_minus_1)
  ultimately show ?thesis
    by (auto simp add: settled_def)
qed

lemma shift_low_less: "shift_low P R l < 2 ^ k_max_bits P"
  by (simp add: shift_low_eq)

lemma shift_high_less: "shift_high P R h < 2 ^ k_max_bits P"
  by (simp add: shift_high_eq)

lemma measure_case_A:
  assumes "h AND k_hi_bit_val P = l AND k_hi_bit_val P"
  shows "renorm_measure (k_max_bits P) (shift_low P R l) (shift_high P R h)
    < renorm_measure (k_max_bits P) l h"
proof (rule renorm_measure_decreases)
  show "1 \<in> settled (k_max_bits P) (shift_low P R l) (shift_high P R h)"
    using k_max_bits_ge [of P] by (simp add: settled_iff bit_shift_low bit_shift_high)
next
  fix j
  assume j: "j \<in> settled (k_max_bits P) l h"
  have top: "bit h (k_max_bits P - 1) \<longleftrightarrow> bit l (k_max_bits P - 1)"
    using assms by (simp add: k_hi_bit_val_eq and_exp_eq_iff)
  have "j \<noteq> k_max_bits P"
  proof
    assume "j = k_max_bits P"
    with j have "\<not> bit l (k_max_bits P - 1) \<and> bit h (k_max_bits P - 1)"
      using k_max_bits_ge [of P] by (simp add: settled_iff)
    with top show False by simp
  qed
  with j have "j < k_max_bits P"
    by (simp add: settled_iff)
  moreover have "Suc j \<in> settled (k_max_bits P) (shift_low P R l) (shift_high P R h)"
  proof -
    have "\<not> bit l (i - 1) \<and> bit h (i - 1)" if "i < Suc j" "0 < i" for i
      using that j by (simp add: settled_iff)
    with \<open>j < k_max_bits P\<close> show ?thesis
      by (auto simp add: settled_iff bit_shift_low bit_shift_high)
  qed
  ultimately show "j < k_max_bits P \<and> Suc j \<in> settled (k_max_bits P) (shift_low P R l) (shift_high P R h)"
    by simp
qed (simp_all add: shift_low_less shift_high_less)

lemma measure_case_B:
  assumes "l AND k_low_bit_val P \<noteq> 0" and "h AND k_low_bit_val P = 0"
  shows "renorm_measure (k_max_bits P) (shift_low P R (l AND k_low_bit_mask P))
      (shift_high P R (h OR k_low_bit_val P))
    < renorm_measure (k_max_bits P) l h"
proof (rule renorm_measure_decreases)
  show "1 \<in> settled (k_max_bits P) (shift_low P R (l AND k_low_bit_mask P))
      (shift_high P R (h OR k_low_bit_val P))"
    using k_max_bits_ge [of P] by (simp add: settled_iff bit_shift_low bit_shift_high)
next
  fix j
  assume j: "j \<in> settled (k_max_bits P) l h"
  have low: "bit l (k_max_bits P - 2)"
    using assms(1) by (simp only: k_low_bit_val_eq and_exp_neq_0_iff)
  have "\<not> k_max_bits P - 2 < j"
  proof
    assume "k_max_bits P - 2 < j"
    with j have "\<not> bit l (k_max_bits P - 2)"
      by (simp add: settled_iff)
    with low show False by simp
  qed
  then have jle: "j \<le> k_max_bits P - 2"
    by simp
  then have "j < k_max_bits P"
    using k_max_bits_ge [of P] by simp
  moreover have "Suc j \<in> settled (k_max_bits P) (shift_low P R (l AND k_low_bit_mask P))
      (shift_high P R (h OR k_low_bit_val P))"
  proof -
    have "\<not> bit l (i - 1) \<and> bit h (i - 1)" if "i < Suc j" "0 < i" for i
      using that j by (simp add: settled_iff)
    moreover have "bit (l AND k_low_bit_mask P) i \<Longrightarrow> bit l i" for i
      by (simp add: bit_and_iff)
    moreover have "bit h i \<Longrightarrow> bit (h OR k_low_bit_val P) i" for i
      by (simp add: bit_or_iff)
    ultimately show ?thesis
      using \<open>j < k_max_bits P\<close>
      by (simp add: settled_iff bit_shift_low bit_shift_high) blast
  qed
  ultimately show "j < k_max_bits P \<and> Suc j \<in> settled (k_max_bits P)
      (shift_low P R (l AND k_low_bit_mask P)) (shift_high P R (h OR k_low_bit_val P))"
    by simp
qed (simp_all add: shift_low_less shift_high_less)


text \<open>
  The renormalisation loop of \<open>range_code\<close>, entered with the narrowed range in \<open>st\<close>
  and \<open>cost = 0\<close>. The last argument counts the passes that reach the shift; the source
  has no such counter, and \<open>range_code\<close> drops it. \<open>simulate\<close> never touches the stream.
\<close>

definition renorm_shift :: "probability_type_t \<Rightarrow> max_range_type_t \<Rightarrow> scalable_ac_c \<Rightarrow> scalable_ac_c" where
  "renorm_shift P R st = st\<lparr>m_low := shift_low P R (m_low st), m_high := shift_high P R (m_high st)\<rparr>"

function range_code_loop :: "probability_type_t \<Rightarrow> max_range_type_t \<Rightarrow> bool \<Rightarrow> scalable_ac_c
    \<Rightarrow> nat \<Rightarrow> nat \<Rightarrow> error + nat \<times> scalable_ac_c \<times> nat" where
  "range_code_loop P R simulate st cost passes =
     (if m_high st AND k_hi_bit_val P = m_low st AND k_hi_bit_val P then
        if \<not> simulate then
          (case m_stream st of
             None \<Rightarrow> Inl NullPointer
           | Some out \<Rightarrow>
               range_code_loop P R simulate
                 (renorm_shift P R
                    (st\<lparr>m_stream := Some (write_underflow
                           (uf_mask_of (drop_bit (k_hi_bit P) (m_high st) XOR 1))
                           (m_underflow_count st)
                           (stream_write (drop_bit (k_hi_bit P) (m_high st)) 1 out)),
                        m_underflow_count := 0\<rparr>))
                 (r_add R cost (r_add R (m_underflow_count st) 1)) (Suc passes))
        else
          range_code_loop P R simulate (renorm_shift P R (st\<lparr>m_underflow_count := 0\<rparr>))
            (r_add R cost (r_add R (m_underflow_count st) 1)) (Suc passes)
      else if m_low st AND k_low_bit_val P \<noteq> 0 \<and> \<not> m_high st AND k_low_bit_val P \<noteq> 0 then
        range_code_loop P R simulate
          (renorm_shift P R
             (st\<lparr>m_underflow_count := r_add R (m_underflow_count st) 1,
                 m_low := m_low st AND k_low_bit_mask P,
                 m_high := m_high st OR k_low_bit_val P\<rparr>))
          cost (Suc passes)
      else Inr (cost, st, passes))"
  by pat_completeness auto
termination
proof (relation "measure (\<lambda>(P, R, simulate, st, cost, passes).
    renorm_measure (k_max_bits P) (m_low st) (m_high st))", goal_cases)
  case 1
  show ?case by simp
next
  case (2 P R simulate st cost passes out)
  then show ?case by (simp add: renorm_shift_def measure_case_A)
next
  case (3 P R simulate st cost passes)
  then show ?case by (simp add: renorm_shift_def measure_case_A)
next
  case (4 P R simulate st cost passes)
  then show ?case by (simp add: renorm_shift_def measure_case_B)
qed

declare range_code_loop.simps [simp del]

definition range_code :: "probability_type_t \<Rightarrow> max_range_type_t \<Rightarrow> nat \<Rightarrow> bool \<Rightarrow> scalable_ac_c
    \<Rightarrow> error + nat \<times> scalable_ac_c" where
  "range_code P R symbol simulate st =
     (case m_probability st of
        None \<Rightarrow> Inl NullPointer
      | Some C \<Rightarrow>
          if \<not> (symbol < length C \<and> r_add R symbol 1 < length C \<and> m_max_syms st < length C)
          then Inl OutOfBounds
          else
            let sym_low = C ! symbol;
                sym_high = C ! r_add R symbol 1;
                max_range = C ! m_max_syms st
            in if max_range = 0 then Inl DivByZero
               else
                 let tmp = r_add R (r_sub R (m_high st) (m_low st)) 1;
                     hi = r_sub R (r_add R (m_low st) (r_mul R tmp sym_high div max_range)) 1;
                     lo = r_add R (m_low st) (r_mul R tmp sym_low div max_range)
                 in case range_code_loop P R simulate
                           (st\<lparr>m_tmp_range := tmp, m_high := hi, m_low := lo\<rparr>) 0 0 of
                      Inl e \<Rightarrow> Inl e
                    | Inr (cost, st', passes) \<Rightarrow> Inr (cost, st'))"

text \<open>The model update that follows \<open>range_code\<close> in \<open>encode_symbol\<close> and in
  \<open>estimate_cost\<close>.\<close>

definition update_probability :: "probability_type_t \<Rightarrow> max_range_type_t \<Rightarrow> nat \<Rightarrow> scalable_ac_c
    \<Rightarrow> error + scalable_ac_c" where
  "update_probability P R s st =
     (case m_probability st of
        None \<Rightarrow> Inl NullPointer
      | Some C \<Rightarrow>
          (case update_model P R (m_max_syms st) s C of
             Inl e \<Rightarrow> Inl e
           | Inr C' \<Rightarrow> Inr (st\<lparr>m_probability := Some C'\<rparr>)))"

definition encode_symbol :: "probability_type_t \<Rightarrow> max_range_type_t \<Rightarrow> nat \<Rightarrow> scalable_ac_c
    \<Rightarrow> error + scalable_ac_c" where
  "encode_symbol P R s st =
     (case range_code P R s False st of
        Inl e \<Rightarrow> Inl e
      | Inr (cost, st') \<Rightarrow> update_probability P R s st')"

definition estimate_cost :: "probability_type_t \<Rightarrow> max_range_type_t \<Rightarrow> nat \<Rightarrow> scalable_ac_c
    \<Rightarrow> error + nat \<times> scalable_ac_c" where
  "estimate_cost P R s st =
     (case range_code P R s True st of
        Inl e \<Rightarrow> Inl e
      | Inr (cost, st') \<Rightarrow>
          (case update_probability P R s st' of
             Inl e \<Rightarrow> Inl e
           | Inr st'' \<Rightarrow> Inr (cost, st'')))"

text \<open>\<open>estimate_cost(s, count, lim)\<close> over a buffer: the list holds the \<open>count\<close>
  symbols, \<open>cost\<close> is the sum so far.\<close>

fun estimate_cost_buf :: "probability_type_t \<Rightarrow> max_range_type_t \<Rightarrow> nat list \<Rightarrow> nat \<Rightarrow> nat
    \<Rightarrow> scalable_ac_c \<Rightarrow> error + nat \<times> scalable_ac_c" where
  "estimate_cost_buf P R [] lim cost st = Inr (cost, st)"
| "estimate_cost_buf P R (s # ss) lim cost st =
     (case estimate_cost P R s st of
        Inl e \<Rightarrow> Inl e
      | Inr (c, st') \<Rightarrow>
          let cost' = r_add R cost c in
          if cost' > lim then Inr (cost', st')
          else estimate_cost_buf P R ss lim cost' st')"


section \<open>The decoder: \<open>scalable_adc_c\<close>\<close>

text \<open>
  The members of the decoder, \<open>m_stream\<close> to \<open>m_probability\<close>, under the prefix \<open>adc_\<close>
  (the encoder's record has the names without it). \<open>adc_stream\<close> is the pointer to the
  reader: \<open>Some bits\<close> a reader with \<open>bits\<close> left to read.
\<close>

record scalable_adc_c =
  adc_stream :: "bool list option"
  adc_high :: nat
  adc_low :: nat
  adc_tmp_range :: nat
  adc_max_syms :: nat
  adc_code :: nat
  adc_probability :: "nat list option"

text \<open>The constructor sets \<open>m_stream\<close> and \<open>m_probability\<close> to null and leaves the other
  members uninitialised; the model has 0 there.\<close>

definition scalable_adc_c_new :: scalable_adc_c where
  "scalable_adc_c_new =
     \<lparr>adc_stream = None, adc_high = 0, adc_low = 0, adc_tmp_range = 0, adc_max_syms = 0,
      adc_code = 0, adc_probability = None\<rparr>"

text \<open>\<^verbatim>\<open>for (i = 0;i < k_max_bits;++i) { m_code <<= 1; m_code |= m_stream->read(1); }\<close>\<close>

fun init_code :: "max_range_type_t \<Rightarrow> nat \<Rightarrow> nat \<Rightarrow> bool list \<Rightarrow> nat \<times> bool list" where
  "init_code R 0 code src = (code, src)"
| "init_code R (Suc k) code src =
     (case read1 src of (b, src') \<Rightarrow> init_code R k (r_shl1 R code OR b) src')"

definition adc_init :: "probability_type_t \<Rightarrow> max_range_type_t \<Rightarrow> nat \<Rightarrow> bool list option
    \<Rightarrow> scalable_adc_c \<Rightarrow> error + bool \<times> scalable_adc_c" where
  "adc_init P R max_symbols stream st =
     (case stream of
        None \<Rightarrow> Inr (False, st)
      | Some src \<Rightarrow>
          if max_symbols = 0 then Inr (False, st)
          else if r_add R max_symbols 1 \<le> max_symbols then Inl OutOfBounds
          else
            (case init_code R (k_max_bits P) 0 src of
               (code, src') \<Rightarrow>
                 Inr (True, st\<lparr>adc_high := k_probability_range_mask P, adc_low := 0,
                        adc_tmp_range := 0, adc_stream := Some src',
                        adc_probability := Some (init_model P max_symbols),
                        adc_max_syms := max_symbols, adc_code := code\<rparr>)))"

text \<open>The decoder's \<open>expand\<close> numbers the new entries from 0:
  \<^verbatim>\<open>for (i = m_max_syms+1, j = 0;i <= max_symbols;i++) tmp[i]=j++;\<close>\<close>

definition adc_expand :: "probability_type_t \<Rightarrow> max_range_type_t \<Rightarrow> nat \<Rightarrow> scalable_adc_c
    \<Rightarrow> error + bool \<times> scalable_adc_c" where
  "adc_expand P R max_symbols st =
     (case adc_probability st of
        None \<Rightarrow> Inr (False, st)
      | Some C \<Rightarrow>
          if max_symbols \<le> adc_max_syms st then Inr (False, st)
          else if r_add R max_symbols 1 \<le> max_symbols \<or> \<not> adc_max_syms st < length C
          then Inl OutOfBounds
          else
            Inr (True, st\<lparr>adc_probability :=
                   Some (take (Suc (adc_max_syms st)) C @
                         map (\<lambda>j. j mod 2 ^ k_max_bits P) [0..<max_symbols - adc_max_syms st]),
                 adc_max_syms := max_symbols\<rparr>))"

definition get_current_prob :: "max_range_type_t \<Rightarrow> nat \<Rightarrow> scalable_adc_c
    \<Rightarrow> error + nat \<times> scalable_adc_c" where
  "get_current_prob R rng st =
     (let tmp = r_add R (r_sub R (adc_high st) (adc_low st)) 1 in
      if tmp = 0 then Inl DivByZero
      else Inr (r_sub R (r_mul R (r_add R (r_sub R (adc_code st) (adc_low st)) 1) rng) 1 div tmp,
                st\<lparr>adc_tmp_range := tmp\<rparr>))"

text \<open>The scan \<^verbatim>\<open>do { } while (sym && m_probability[--sym] > prob);\<close> of
  \<open>decode_symbol\<close>.\<close>

fun scan_loop :: "nat list \<Rightarrow> nat \<Rightarrow> nat \<Rightarrow> nat" where
  "scan_loop C prob 0 = 0"
| "scan_loop C prob (Suc symbol) = (if C ! symbol > prob then scan_loop C prob symbol else symbol)"

definition locate :: "nat list \<Rightarrow> nat \<Rightarrow> nat \<Rightarrow> nat" where
  "locate C n prob =
     (let symbol = (if n \<noteq> 0 then n - 1 else 0)
      in if symbol \<noteq> 0 \<and> C ! symbol > prob then scan_loop C prob symbol else symbol)"

definition adc_shift :: "probability_type_t \<Rightarrow> max_range_type_t \<Rightarrow> nat \<Rightarrow> bool list
    \<Rightarrow> scalable_adc_c \<Rightarrow> scalable_adc_c" where
  "adc_shift P R b src st =
     st\<lparr>adc_low := shift_low P R (adc_low st), adc_high := shift_high P R (adc_high st),
        adc_code := (r_shl1 R (adc_code st) OR b) AND k_probability_range_mask P,
        adc_stream := Some src\<rparr>"

text \<open>The renormalisation loop of \<open>remove_range\<close>; the last argument counts the passes
  that reach the shift, as in \<open>range_code_loop\<close>.\<close>

function remove_range_loop :: "probability_type_t \<Rightarrow> max_range_type_t \<Rightarrow> scalable_adc_c \<Rightarrow> nat
    \<Rightarrow> error + scalable_adc_c \<times> nat" where
  "remove_range_loop P R st passes =
     (if adc_high st AND k_hi_bit_val P = adc_low st AND k_hi_bit_val P then
        (case adc_stream st of
           None \<Rightarrow> Inl NullPointer
         | Some src \<Rightarrow>
             remove_range_loop P R (adc_shift P R (fst (read1 src)) (snd (read1 src)) st)
               (Suc passes))
      else if adc_low st AND k_low_bit_val P \<noteq> 0 \<and> \<not> adc_high st AND k_low_bit_val P \<noteq> 0 then
        (case adc_stream st of
           None \<Rightarrow> Inl NullPointer
         | Some src \<Rightarrow>
             remove_range_loop P R
               (adc_shift P R (fst (read1 src)) (snd (read1 src))
                  (st\<lparr>adc_code := adc_code st XOR k_low_bit_val P,
                      adc_low := adc_low st AND k_low_bit_mask P,
                      adc_high := adc_high st OR k_low_bit_val P\<rparr>))
               (Suc passes))
      else Inr (st, passes))"
  by pat_completeness auto
termination
proof (relation "measure (\<lambda>(P, R, st, passes).
    renorm_measure (k_max_bits P) (adc_low st) (adc_high st))", goal_cases)
  case 1
  show ?case by simp
next
  case (2 P R st passes src)
  then show ?case by (simp add: adc_shift_def measure_case_A)
next
  case (3 P R st passes src)
  then show ?case by (simp add: adc_shift_def measure_case_B)
qed

declare remove_range_loop.simps [simp del]

definition remove_range :: "probability_type_t \<Rightarrow> max_range_type_t \<Rightarrow> nat \<Rightarrow> scalable_adc_c
    \<Rightarrow> error + scalable_adc_c" where
  "remove_range P R symbol st =
     (case adc_probability st of
        None \<Rightarrow> Inl NullPointer
      | Some C \<Rightarrow>
          if \<not> (symbol < length C \<and> r_add R symbol 1 < length C \<and> adc_max_syms st < length C)
          then Inl OutOfBounds
          else
            let sym_low = C ! symbol;
                sym_high = C ! r_add R symbol 1;
                total_range = C ! adc_max_syms st
            in if total_range = 0 then Inl DivByZero
               else
                 let tmp = r_add R (r_sub R (adc_high st) (adc_low st)) 1;
                     hi = r_sub R (r_add R (adc_low st) (r_mul R tmp sym_high div total_range)) 1;
                     lo = r_add R (adc_low st) (r_mul R tmp sym_low div total_range)
                 in case remove_range_loop P R
                           (st\<lparr>adc_tmp_range := tmp, adc_high := hi, adc_low := lo\<rparr>) 0 of
                      Inl e \<Rightarrow> Inl e
                    | Inr (st', passes) \<Rightarrow> Inr st')"

definition decode_symbol :: "probability_type_t \<Rightarrow> max_range_type_t \<Rightarrow> scalable_adc_c
    \<Rightarrow> error + nat \<times> scalable_adc_c" where
  "decode_symbol P R st =
     (case adc_probability st of
        None \<Rightarrow> Inl NullPointer
      | Some C \<Rightarrow>
          if \<not> adc_max_syms st < length C then Inl OutOfBounds
          else
            (case get_current_prob R (C ! adc_max_syms st) st of
               Inl e \<Rightarrow> Inl e
             | Inr (prob, st1) \<Rightarrow>
                 let symbol = locate C (adc_max_syms st) prob in
                 (case remove_range P R symbol st1 of
                    Inl e \<Rightarrow> Inl e
                  | Inr st2 \<Rightarrow>
                      (case adc_probability st2 of
                         None \<Rightarrow> Inl NullPointer
                       | Some C2 \<Rightarrow>
                           (case update_model P R (adc_max_syms st2) symbol C2 of
                              Inl e \<Rightarrow> Inl e
                            | Inr C' \<Rightarrow> Inr (symbol, st2\<lparr>adc_probability := Some C'\<rparr>))))))"


section \<open>Flush\<close>

text \<open>
  C10: \<open>flush\<close> returns \<open>false\<close> on every path: without a stream, when already flushed
  and not forced, and on the path that writes the termination bit and the underflow run.
\<close>

theorem flush_returns_false: "fst (flush P R force st) = False"
  by (simp add: flush_def Let_def split: option.splits)

text \<open>At a fresh encoder with a stream and two pending underflow bits, \<open>flush\<close> writes
  four bits and returns \<open>false\<close>.\<close>

theorem flush_returns_false_witness:
  "fst (flush P_uint32 R_uint64 False
      ((scalable_ac_c_new P_uint32)\<lparr>m_stream := Some [], m_low := 2 ^ 30, m_underflow_count := 2\<rparr>))
     = False
   \<and> m_stream (snd (flush P_uint32 R_uint64 False
      ((scalable_ac_c_new P_uint32)\<lparr>m_stream := Some [], m_low := 2 ^ 30, m_underflow_count := 2\<rparr>)))
     = Some [True, False, False, False]"
  using flush_returns_false [of P_uint32 R_uint64 False
      "(scalable_ac_c_new P_uint32)\<lparr>m_stream := Some [], m_low := 2 ^ 30, m_underflow_count := 2\<rparr>"]
  by (simp add: flush_def scalable_ac_c_new_def Let_def r_add_def range_bits_def k_low_bit_def
      k_max_bits_def stream_write_def uf_mask_of_def drop_bit_eq_div upt_rec bit_iff_odd
      write_underflow.simps)

text \<open>
  C9: once \<open>flush\<close> has run with a stream attached the encoder is flushed, and a
  \<open>flush\<close> without \<open>force\<close> on a flushed encoder writes nothing and leaves the encoder as
  it is: the second of two calls changes nothing.
\<close>

theorem flush_idempotent:
  "m_stream st \<noteq> None \<Longrightarrow>
     m_flushed (snd (flush P R force st))
     \<and> flush P R False (snd (flush P R force st)) = (False, snd (flush P R force st))
     \<and> (\<forall>st'. m_flushed st' \<longrightarrow> flush P R False st' = (False, st'))"
proof (intro conjI allI impI)
  assume s: "m_stream st \<noteq> None"
  then show f: "m_flushed (snd (flush P R force st))"
    by (cases "m_stream st") (simp_all add: flush_def Let_def)
  show g: "flush P R False st' = (False, st')" if "m_flushed st'" for st'
    using that by (cases "m_stream st'") (simp_all add: flush_def)
  from f show "flush P R False (snd (flush P R force st)) = (False, snd (flush P R force st))"
    by (rule g)
qed

theorem flush_idempotent_witness:
  "m_stream ((scalable_ac_c_new P_uint32)\<lparr>m_stream := Some [], m_low := 2 ^ 30\<rparr>) \<noteq> None
   \<and> m_stream (snd (flush P_uint32 R_uint64 False (snd (flush P_uint32 R_uint64 False
        ((scalable_ac_c_new P_uint32)\<lparr>m_stream := Some [], m_low := 2 ^ 30\<rparr>)))))
     = Some [True, False]"
proof -
  let ?st = "(scalable_ac_c_new P_uint32)\<lparr>m_stream := Some [], m_low := 2 ^ 30\<rparr>"
  have s: "m_stream ?st \<noteq> None"
    by simp
  have once: "m_stream (snd (flush P_uint32 R_uint64 False ?st)) = Some [True, False]"
    by (simp add: flush_def scalable_ac_c_new_def Let_def r_add_def range_bits_def k_low_bit_def
      k_max_bits_def stream_write_def uf_mask_of_def drop_bit_eq_div upt_rec bit_iff_odd
      write_underflow.simps)
  from flush_idempotent [OF s, of P_uint32 R_uint64 False]
  have "flush P_uint32 R_uint64 False (snd (flush P_uint32 R_uint64 False ?st))
      = (False, snd (flush P_uint32 R_uint64 False ?st))"
    by blast
  with s once show ?thesis
    by simp
qed


section \<open>Renormalisation\<close>

text \<open>Each pass of either loop that reaches the shift lowers the measure.\<close>

lemma range_code_loop_passes:
  "simulate \<or> m_stream st \<noteq> None \<Longrightarrow>
     \<exists>c st' n'. range_code_loop P R simulate st cost n = Inr (c, st', n')
        \<and> n' \<le> n + renorm_measure (k_max_bits P) (m_low st) (m_high st)"
proof (induction P R simulate st cost n rule: range_code_loop.induct)
  case (1 P R simulate st cost passes)
  let ?w = "k_max_bits P"
  show ?case
  proof (cases "m_high st AND k_hi_bit_val P = m_low st AND k_hi_bit_val P")
    case A: True
    show ?thesis
    proof (cases simulate)
      case True
      let ?st = "renorm_shift P R (st\<lparr>m_underflow_count := 0\<rparr>)"
      from "1.IH"(2) [OF A] True
      obtain c st' n' where r: "range_code_loop P R simulate ?st
            (r_add R cost (r_add R (m_underflow_count st) 1)) (Suc passes) = Inr (c, st', n')"
        and n: "n' \<le> Suc passes + renorm_measure ?w (m_low ?st) (m_high ?st)"
        by auto
      have "renorm_measure ?w (m_low ?st) (m_high ?st) < renorm_measure ?w (m_low st) (m_high st)"
        using measure_case_A [OF A] by (simp add: renorm_shift_def)
      with n have "n' \<le> passes + renorm_measure ?w (m_low st) (m_high st)"
        by simp
      with r A True show ?thesis
        by (subst range_code_loop.simps) simp
    next
      case False
      with "1.prems" obtain out where out: "m_stream st = Some out"
        by auto
      let ?st = "renorm_shift P R
                    (st\<lparr>m_stream := Some (write_underflow
                           (uf_mask_of (drop_bit (k_hi_bit P) (m_high st) XOR 1))
                           (m_underflow_count st)
                           (stream_write (drop_bit (k_hi_bit P) (m_high st)) 1 out)),
                        m_underflow_count := 0\<rparr>)"
      have "m_stream ?st \<noteq> None"
        by (simp add: renorm_shift_def)
      with "1.IH"(1) [OF A False out]
      obtain c st' n' where r: "range_code_loop P R simulate ?st
            (r_add R cost (r_add R (m_underflow_count st) 1)) (Suc passes) = Inr (c, st', n')"
        and n: "n' \<le> Suc passes + renorm_measure ?w (m_low ?st) (m_high ?st)"
        by blast
      have "renorm_measure ?w (m_low ?st) (m_high ?st) < renorm_measure ?w (m_low st) (m_high st)"
        using measure_case_A [OF A] by (simp add: renorm_shift_def)
      with n have "n' \<le> passes + renorm_measure ?w (m_low st) (m_high st)"
        by simp
      with r A False out show ?thesis
        by (subst range_code_loop.simps) simp
    qed
  next
    case nA: False
    show ?thesis
    proof (cases "m_low st AND k_low_bit_val P \<noteq> 0 \<and> \<not> m_high st AND k_low_bit_val P \<noteq> 0")
      case B: True
      let ?st = "renorm_shift P R
             (st\<lparr>m_underflow_count := r_add R (m_underflow_count st) 1,
                 m_low := m_low st AND k_low_bit_mask P,
                 m_high := m_high st OR k_low_bit_val P\<rparr>)"
      have "simulate \<or> m_stream ?st \<noteq> None"
        using "1.prems" by (simp add: renorm_shift_def)
      with "1.IH"(3) [OF nA B]
      obtain c st' n' where r: "range_code_loop P R simulate ?st cost (Suc passes) = Inr (c, st', n')"
        and n: "n' \<le> Suc passes + renorm_measure ?w (m_low ?st) (m_high ?st)"
        by blast
      have "renorm_measure ?w (m_low ?st) (m_high ?st) < renorm_measure ?w (m_low st) (m_high st)"
        using measure_case_B [of "m_low st" P "m_high st"] B by (simp add: renorm_shift_def)
      with n have "n' \<le> passes + renorm_measure ?w (m_low st) (m_high st)"
        by simp
      with r nA B show ?thesis
        by (subst range_code_loop.simps) simp
    next
      case False
      with nA show ?thesis
        by (subst range_code_loop.simps) auto
    qed
  qed
qed

lemma remove_range_loop_passes:
  "adc_stream st \<noteq> None \<Longrightarrow>
     \<exists>st' n'. remove_range_loop P R st n = Inr (st', n')
        \<and> n' \<le> n + renorm_measure (k_max_bits P) (adc_low st) (adc_high st)"
proof (induction P R st n rule: remove_range_loop.induct)
  case (1 P R st passes)
  let ?w = "k_max_bits P"
  from "1.prems" obtain src where src: "adc_stream st = Some src"
    by auto
  show ?case
  proof (cases "adc_high st AND k_hi_bit_val P = adc_low st AND k_hi_bit_val P")
    case A: True
    let ?st = "adc_shift P R (fst (read1 src)) (snd (read1 src)) st"
    have "adc_stream ?st \<noteq> None"
      by (simp add: adc_shift_def)
    with "1.IH"(1) [OF A src]
    obtain st' n' where r: "remove_range_loop P R ?st (Suc passes) = Inr (st', n')"
      and n: "n' \<le> Suc passes + renorm_measure ?w (adc_low ?st) (adc_high ?st)"
      by blast
    have "renorm_measure ?w (adc_low ?st) (adc_high ?st) < renorm_measure ?w (adc_low st) (adc_high st)"
      using measure_case_A [OF A] by (simp add: adc_shift_def)
    with n have "n' \<le> passes + renorm_measure ?w (adc_low st) (adc_high st)"
      by simp
    with r A src show ?thesis
      by (subst remove_range_loop.simps) simp
  next
    case nA: False
    show ?thesis
    proof (cases "adc_low st AND k_low_bit_val P \<noteq> 0 \<and> \<not> adc_high st AND k_low_bit_val P \<noteq> 0")
      case B: True
      let ?st = "adc_shift P R (fst (read1 src)) (snd (read1 src))
                  (st\<lparr>adc_code := adc_code st XOR k_low_bit_val P,
                      adc_low := adc_low st AND k_low_bit_mask P,
                      adc_high := adc_high st OR k_low_bit_val P\<rparr>)"
      have "adc_stream ?st \<noteq> None"
        by (simp add: adc_shift_def)
      with "1.IH"(2) [OF nA B src]
      obtain st' n' where r: "remove_range_loop P R ?st (Suc passes) = Inr (st', n')"
        and n: "n' \<le> Suc passes + renorm_measure ?w (adc_low ?st) (adc_high ?st)"
        by blast
      have "renorm_measure ?w (adc_low ?st) (adc_high ?st) < renorm_measure ?w (adc_low st) (adc_high st)"
        using measure_case_B [of "adc_low st" P "adc_high st"] B by (simp add: adc_shift_def)
      with n have "n' \<le> passes + renorm_measure ?w (adc_low st) (adc_high st)"
        by simp
      with r nA B src show ?thesis
        by (subst remove_range_loop.simps) simp
    next
      case False
      with nA show ?thesis
        by (subst remove_range_loop.simps) auto
    qed
  qed
qed

text \<open>
  C8: from every state of the encoder (with a stream, or simulating) and of the decoder
  (with a stream), whatever the range and the symbol that narrowed it, the
  renormalisation loop of \<open>range_code\<close> and that of \<open>remove_range\<close> return, after at most
  \<open>k_max_bits\<close> passes through Case A or Case B and the shift; the pass that follows
  them takes the exit.
\<close>

theorem renormalisation_bounded:
  "(simulate \<or> m_stream st \<noteq> None \<longrightarrow>
      (\<exists>c st' n. range_code_loop P R simulate st cost 0 = Inr (c, st', n) \<and> n \<le> k_max_bits P))
   \<and> (adc_stream dst \<noteq> None \<longrightarrow>
      (\<exists>st' n. remove_range_loop P R dst 0 = Inr (st', n) \<and> n \<le> k_max_bits P))"
proof (intro conjI impI)
  assume "simulate \<or> m_stream st \<noteq> None"
  from range_code_loop_passes [OF this, of P R cost 0]
  obtain c st' n where "range_code_loop P R simulate st cost 0 = Inr (c, st', n)"
    and "n \<le> renorm_measure (k_max_bits P) (m_low st) (m_high st)"
    by auto
  with renorm_measure_le [of "k_max_bits P" "m_low st" "m_high st"]
  show "\<exists>c st' n. range_code_loop P R simulate st cost 0 = Inr (c, st', n) \<and> n \<le> k_max_bits P"
    by auto
next
  assume "adc_stream dst \<noteq> None"
  from remove_range_loop_passes [OF this, of P R 0]
  obtain st' n where "remove_range_loop P R dst 0 = Inr (st', n)"
    and "n \<le> renorm_measure (k_max_bits P) (adc_low dst) (adc_high dst)"
    by auto
  with renorm_measure_le [of "k_max_bits P" "adc_low dst" "adc_high dst"]
  show "\<exists>st' n. remove_range_loop P R dst 0 = Inr (st', n) \<and> n \<le> k_max_bits P"
    by auto
qed


text \<open>With \<open>low = high = 5\<close> in a coder over 8-bit counters both loops take all 8
  passes.\<close>

theorem renormalisation_bounded_witness:
  "range_code_loop P_uint8 R_uint32 True
       ((scalable_ac_c_new P_uint8)\<lparr>m_low := 5, m_high := 5\<rparr>) 0 0
     = Inr (8, (scalable_ac_c_new P_uint8)\<lparr>m_low := 0, m_high := 255\<rparr>, 8)
   \<and> remove_range_loop P_uint8 R_uint32
       \<lparr>adc_stream = Some [True], adc_high = 5, adc_low = 5, adc_tmp_range = 1,
        adc_max_syms = 1, adc_code = 5, adc_probability = None\<rparr> 0
     = Inr (\<lparr>adc_stream = Some [], adc_high = 255, adc_low = 0, adc_tmp_range = 1,
        adc_max_syms = 1, adc_code = 128, adc_probability = None\<rparr>, 8)
   \<and> (8::nat) \<le> k_max_bits P_uint8"
  using renormalisation_bounded [of True "(scalable_ac_c_new P_uint8)\<lparr>m_low := 5, m_high := 5\<rparr>"
      P_uint8 R_uint32 0
      "\<lparr>adc_stream = Some [True], adc_high = 5, adc_low = 5, adc_tmp_range = 1,
        adc_max_syms = 1, adc_code = 5, adc_probability = None\<rparr>"]
  by (simp add: range_code_loop.simps remove_range_loop.simps scalable_ac_c_new_def
      renorm_shift_def adc_shift_def shift_low_eq shift_high_eq k_hi_bit_val_def
      k_low_bit_val_def k_low_bit_mask_def k_probability_range_mask_def k_max_bits_def
      r_add_def r_shl1_def range_bits_def)

section \<open>The cumulative table\<close>

text \<open>
  A cumulative table over \<open>n\<close> symbols: \<open>n + 1\<close> entries of the counter type, the first
  0, strictly increasing (every slice at least 1).
\<close>

definition cumulative :: "probability_type_t \<Rightarrow> nat \<Rightarrow> nat list \<Rightarrow> bool" where
  "cumulative P n C \<longleftrightarrow>
     length C = Suc n \<and> C ! 0 = 0 \<and> sorted_wrt (<) C \<and> (\<forall>c\<in>set C. c < 2 ^ k_max_bits P)"

text \<open>
  The rescale pass in the words of the specification, on unbounded numbers: \<open>prev = C[0]\<close>;
  for \<open>i\<close> from 1 to \<open>N\<close>: \<open>curr = C[i] >> 1\<close>; if \<open>curr \<le> prev\<close> then \<open>curr = prev + 1\<close>;
  \<open>C[i] = curr\<close>; \<open>prev = curr\<close>.
\<close>

function rescale_spec_pass :: "nat list \<Rightarrow> nat \<Rightarrow> nat \<Rightarrow> nat \<Rightarrow> nat list" where
  "rescale_spec_pass C N prev i =
     (if i \<le> N then
        (let curr = C ! i div 2;
             curr = (if curr \<le> prev then prev + 1 else curr)
         in rescale_spec_pass (C[i := curr]) N curr (i + 1))
      else C)"
  by pat_completeness auto
termination
  by (relation "measure (\<lambda>(C, N, prev, i). Suc N - i)") auto

declare rescale_spec_pass.simps [simp del]

definition rescale_spec :: "nat list \<Rightarrow> nat \<Rightarrow> nat list" where
  "rescale_spec C N = rescale_spec_pass C N (C ! 0) 1"

lemma length_scale_model_loop [simp]: "length (scale_model_loop P prev cs) = length cs"
  by (induction cs arbitrary: prev) (simp_all add: Let_def)

lemma p_add_no_wrap: "a + b < 2 ^ k_max_bits P \<Longrightarrow> p_add P a b = a + b"
  by (simp add: p_add_def)

lemma strict_sorted_nth_ge:
  "sorted_wrt (<) (c # cs) \<Longrightarrow> i < length cs \<Longrightarrow> c + i + 1 \<le> cs ! i" for c :: nat
proof (induction cs arbitrary: c i)
  case Nil
  then show ?case by simp
next
  case (Cons d ds)
  show ?case
  proof (cases i)
    case 0
    with Cons.prems show ?thesis by simp
  next
    case (Suc k)
    from Cons.prems have "sorted_wrt (<) (d # ds)" "c < d" by simp_all
    with Cons.IH [of d k] Cons.prems Suc show ?thesis by simp
  qed
qed

text \<open>One step of the pass of \<open>scale_model_loop\<close>.\<close>

definition scale_step :: "probability_type_t \<Rightarrow> nat \<Rightarrow> nat \<Rightarrow> nat" where
  "scale_step P prev c = (if drop_bit 1 c \<le> prev then p_add P prev 1 else drop_bit 1 c)"

lemma scale_model_loop_Cons:
  "scale_model_loop P prev (c # cs) = scale_step P prev c # scale_model_loop P (scale_step P prev c) cs"
  by (simp add: scale_step_def Let_def)

lemma scale_step_eq:
  "prev < c \<Longrightarrow> c < 2 ^ k_max_bits P \<Longrightarrow> scale_step P prev c = max (c div 2) (prev + 1)"
  by (auto simp add: scale_step_def drop_bit_eq_div p_add_no_wrap)

lemma scale_model_loop_sorted:
  "sorted_wrt (<) (prev # cs) \<Longrightarrow> \<forall>c\<in>set cs. c < 2 ^ k_max_bits P \<Longrightarrow>
     sorted_wrt (<) (prev # scale_model_loop P prev cs)"
proof (induction cs arbitrary: prev)
  case Nil
  then show ?case by simp
next
  case (Cons c cs)
  let ?curr = "scale_step P prev c"
  from Cons.prems have pc: "prev < c" "c < 2 ^ k_max_bits P" by simp_all
  then have curr: "?curr = max (c div 2) (prev + 1)"
    by (rule scale_step_eq)
  with pc have "?curr \<le> c" "prev < ?curr" by auto
  with Cons.prems have "sorted_wrt (<) (?curr # cs)" by auto
  with Cons.IH [of ?curr] Cons.prems
  have s: "sorted_wrt (<) (?curr # scale_model_loop P ?curr cs)" by simp
  have "\<forall>x\<in>set (scale_model_loop P ?curr cs). prev < x"
    using s \<open>prev < ?curr\<close> by auto
  with s \<open>prev < ?curr\<close> show ?case
    by (simp only: scale_model_loop_Cons) simp
qed

lemma scale_model_loop_bound:
  "sorted_wrt (<) (prev # cs) \<Longrightarrow> \<forall>c\<in>set cs. c < 2 ^ k_max_bits P \<Longrightarrow> i < length cs \<Longrightarrow>
     scale_model_loop P prev cs ! i \<le> max (prev + i + 1) ((cs ! i + i) div 2)"
proof (induction cs arbitrary: prev i)
  case Nil
  then show ?case by simp
next
  case (Cons c cs)
  let ?curr = "scale_step P prev c"
  from Cons.prems have pc: "prev < c" "c < 2 ^ k_max_bits P" by simp_all
  then have curr: "?curr = max (c div 2) (prev + 1)"
    by (rule scale_step_eq)
  show ?case
  proof (cases i)
    case 0
    with curr show ?thesis
      by (simp only: scale_model_loop_Cons) simp
  next
    case (Suc k)
    with Cons.prems have k: "k < length cs" by simp
    from pc curr have "?curr \<le> c" "prev < ?curr" by auto
    with Cons.prems have "sorted_wrt (<) (?curr # cs)" by auto
    with Cons.IH [of ?curr k] Cons.prems k
    have "scale_model_loop P ?curr cs ! k \<le> max (?curr + k + 1) ((cs ! k + k) div 2)"
      by simp
    moreover have "c + k + 1 \<le> cs ! k"
      using strict_sorted_nth_ge [of c cs k] Cons.prems k by simp
    ultimately have "scale_model_loop P ?curr cs ! k \<le> max (prev + Suc k + 1) (((c # cs) ! Suc k + Suc k) div 2)"
      unfolding curr by (simp add: max_def split: if_splits) linarith+
    with Suc show ?thesis
      by (simp only: scale_model_loop_Cons) simp
  qed
qed

lemma rescale_spec_pass_eq:
  "i \<le> Suc N \<Longrightarrow> length C = Suc N \<Longrightarrow> sorted_wrt (<) (prev # drop i C) \<Longrightarrow>
   \<forall>c\<in>set C. c < 2 ^ k_max_bits P \<Longrightarrow>
     rescale_spec_pass C N prev i = take i C @ scale_model_loop P prev (drop i C)"
proof (induction C N prev i rule: rescale_spec_pass.induct)
  case (1 C N prev i)
  show ?case
  proof (cases "i \<le> N")
    case False
    with "1.prems" show ?thesis
      by (subst rescale_spec_pass.simps) simp
  next
    case True
    with "1.prems" have i: "i < length C" by simp
    then have d: "drop i C = C ! i # drop (Suc i) C"
      by (simp add: Cons_nth_drop_Suc)
    with "1.prems" i have pc: "prev < C ! i" "C ! i < 2 ^ k_max_bits P" by simp_all
    define curr where "curr = scale_step P prev (C ! i)"
    have curr: "curr = max (C ! i div 2) (prev + 1)"
      unfolding curr_def using pc by (rule scale_step_eq)
    have curr': "(if C ! i div 2 \<le> prev then prev + 1 else C ! i div 2) = curr"
      unfolding curr by (simp add: max_def)
    from pc curr have le: "curr \<le> C ! i" by auto
    have "sorted_wrt (<) (curr # drop (Suc i) C)"
      using "1.prems"(3) le unfolding d by auto
    then have s: "sorted_wrt (<) (curr # drop (i + 1) (C[i := curr]))"
      by simp
    have b: "\<forall>c\<in>set (C[i := curr]). c < 2 ^ k_max_bits P"
    proof
      fix c assume "c \<in> set (C[i := curr])"
      then have "c \<in> insert curr (set C)"
        using set_update_subset_insert by fast
      with "1.prems"(4) le pc show "c < 2 ^ k_max_bits P" by auto
    qed
    have "rescale_spec_pass (C[i := curr]) N curr (i + 1)
        = take (i + 1) (C[i := curr]) @ scale_model_loop P curr (drop (i + 1) (C[i := curr]))"
      using "1.IH" [OF True refl curr' [symmetric] _ _ s b] True "1.prems"(2) by simp
    also have "\<dots> = take i C @ curr # scale_model_loop P curr (drop (Suc i) C)"
      using i by (simp add: take_Suc_conv_app_nth)
    also have "\<dots> = take i C @ scale_model_loop P prev (drop i C)"
      unfolding d scale_model_loop_Cons curr_def ..
    finally show ?thesis
      using True curr' by (subst rescale_spec_pass.simps) (simp add: Let_def)
  qed
qed

lemma range_bits_ge: "32 \<le> range_bits R"
  using range_bits_cases [of R] by auto

lemma r_add_no_wrap: "a + b < 2 ^ range_bits R \<Longrightarrow> r_add R a b = a + b"
  by (simp add: r_add_def)

lemma scale_model_eq:
  assumes "length C = Suc n" and "Suc n < 2 ^ range_bits R"
  shows "scale_model P R n C = Inr (hd C # scale_model_loop P (hd C) (tl C))"
proof (cases C)
  case Nil
  with assms show ?thesis by simp
next
  case (Cons prev rest)
  with assms have "length rest = n" by simp
  moreover have "r_add R n 1 = Suc n"
    using assms(2) by (simp add: r_add_no_wrap)
  ultimately show ?thesis
    using Cons by (cases rest) (simp_all add: scale_model_def Let_def)
qed

lemma scale_model_loop_less:
  assumes "sorted_wrt (<) (prev # cs)" and "\<forall>c\<in>set cs. c < 2 ^ k_max_bits P"
    and "x \<in> set (scale_model_loop P prev cs)"
  shows "\<exists>c\<in>set cs. x \<le> c"
  using assms
proof (induction cs arbitrary: prev)
  case Nil
  then show ?case by simp
next
  case (Cons c cs)
  let ?curr = "scale_step P prev c"
  from Cons.prems have pc: "prev < c" "c < 2 ^ k_max_bits P" by simp_all
  then have "?curr = max (c div 2) (prev + 1)"
    by (rule scale_step_eq)
  with pc have le: "?curr \<le> c" by auto
  from Cons.prems(3) have "x = ?curr \<or> x \<in> set (scale_model_loop P ?curr cs)"
    by (simp only: scale_model_loop_Cons) auto
  then show ?case
  proof
    assume "x = ?curr"
    with le show ?thesis by auto
  next
    assume x: "x \<in> set (scale_model_loop P ?curr cs)"
    have "sorted_wrt (<) (?curr # cs)"
      using Cons.prems(1) le by auto
    from Cons.IH [OF this _ x] Cons.prems(2) show ?thesis by auto
  qed
qed

lemma k_max_range_uint8: "k_max_range P_uint8 = 63"
  by (simp add: k_max_range_def k_low_bit_mask_def k_max_bits_def)

text \<open>
  C3, amended: on a cumulative table \<open>scale_model\<close> performs the pass of the
  specification, and leaves a cumulative table (every slice at least 1, no entry
  wrapped). The total after the pass is at most \<open>max N ((C[N] + N - 1) div 2)\<close>: it is
  below \<open>k_max_range\<close> (the \<open>MAX_TOTAL\<close> of the specification) when \<open>C[N] + N\<close> was below
  twice \<open>k_max_range\<close>, not for every table.
\<close>

theorem scale_model_rescales:
  assumes C: "cumulative P n C" and n: "Suc n < 2 ^ range_bits R"
  shows "scale_model P R n C = Inr (rescale_spec C n)
    \<and> cumulative P n (rescale_spec C n)
    \<and> rescale_spec C n ! n \<le> max n ((C ! n + n - 1) div 2)
    \<and> (C ! n + n < 2 * k_max_range P \<longrightarrow> rescale_spec C n ! n < k_max_range P)"
proof -
  from C have len: "length C = Suc n" and zero: "C ! 0 = 0" and sorted: "sorted_wrt (<) C"
    and bound: "\<forall>c\<in>set C. c < 2 ^ k_max_bits P"
    by (simp_all add: cumulative_def)
  from len obtain rest where Ceq: "C = 0 # rest" and rest: "length rest = n"
    using zero by (cases C) auto
  let ?C' = "0 # scale_model_loop P 0 rest"
  have s0: "sorted_wrt (<) (0 # rest)" and brest: "\<forall>c\<in>set rest. c < 2 ^ k_max_bits P"
    using sorted bound Ceq by simp_all
  have "rescale_spec C n = take 1 C @ scale_model_loop P (C ! 0) (drop 1 C)"
    unfolding rescale_spec_def
    using len sorted bound Ceq by (intro rescale_spec_pass_eq) simp_all
  then have resc: "rescale_spec C n = ?C'"
    using Ceq by simp
  have sm: "scale_model P R n C = Inr ?C'"
    using scale_model_eq [OF len n, of P] Ceq by simp
  have s': "sorted_wrt (<) ?C'"
    using scale_model_loop_sorted [OF s0 brest] .
  have b': "\<forall>c\<in>set ?C'. c < 2 ^ k_max_bits P"
  proof
    fix c assume "c \<in> set ?C'"
    then consider "c = 0" | "c \<in> set (scale_model_loop P 0 rest)" by auto
    then show "c < 2 ^ k_max_bits P"
    proof cases
      case 1 then show ?thesis by simp
    next
      case 2
      from scale_model_loop_less [OF s0 brest 2] brest show ?thesis by auto
    qed
  qed
  have cum: "cumulative P n ?C'"
    using s' b' rest by (simp add: cumulative_def)
  have top: "?C' ! n \<le> max n ((C ! n + n - 1) div 2)"
  proof (cases n)
    case 0
    then show ?thesis by simp
  next
    case (Suc k)
    with rest have k: "k < length rest" by simp
    from scale_model_loop_bound [OF s0 brest k]
    have "scale_model_loop P 0 rest ! k \<le> max (k + 1) ((rest ! k + k) div 2)"
      by simp
    with Suc Ceq show ?thesis by simp
  qed
  have "?C' ! n < k_max_range P" if "C ! n + n < 2 * k_max_range P"
  proof -
    have "n \<le> C ! n"
    proof (cases n)
      case 0 then show ?thesis by simp
    next
      case (Suc k)
      with rest have k: "k < length rest" by simp
      from strict_sorted_nth_ge [OF s0 k] Suc Ceq show ?thesis by simp
    qed
    with that have "n < k_max_range P" "(C ! n + n - 1) div 2 < k_max_range P"
      by auto
    with top show ?thesis by simp
  qed
  with sm resc cum top show ?thesis by simp
qed

theorem scale_model_rescales_witness:
  "cumulative P_uint8 3 [0, 20, 41, 63] \<and> Suc 3 < 2 ^ range_bits R_uint32
   \<and> scale_model P_uint8 R_uint32 3 [0, 20, 41, 63] = Inr [0, 10, 20, 31]
   \<and> rescale_spec [0, 20, 41, 63] 3 = [0, 10, 20, 31]
   \<and> [0, 10, 20, 31 :: nat] ! 3 < k_max_range P_uint8"
proof -
  have c: "cumulative P_uint8 3 [0, 20, 41, 63]"
    by (simp add: cumulative_def k_max_bits_def)
  have n: "Suc 3 < 2 ^ range_bits R_uint32"
    by (simp add: range_bits_def)
  have e: "scale_model P_uint8 R_uint32 3 [0, 20, 41, 63] = Inr [0, 10, 20, 31]"
    by (simp add: scale_model_def k_max_bits_def r_add_def range_bits_def
      Let_def drop_bit_eq_div)
  from scale_model_rescales [OF c n] e c n show ?thesis
    by (simp add: k_max_range_uint8)
qed


text \<open>The table \<open>[0, 200]\<close> over 8-bit counters is cumulative; its total after the pass
  is 100, with \<open>k_max_range = 63\<close>.\<close>

theorem scale_model_total_counterexample:
  "cumulative P_uint8 1 [0, 200]
   \<and> scale_model P_uint8 R_uint32 1 [0, 200] = Inr [0, 100]
   \<and> \<not> [0, 100 :: nat] ! 1 < k_max_range P_uint8"
  by (simp add: cumulative_def scale_model_def k_max_bits_def r_add_def range_bits_def
      Let_def drop_bit_eq_div k_max_range_uint8)



section \<open>Arithmetic without wrap-around, the scan, and the loops step by step\<close>

lemma r_sub_no_wrap: "b \<le> a \<Longrightarrow> a < 2 ^ range_bits R \<Longrightarrow> r_sub R a b = a - b"
proof -
  assume ba: "b \<le> a" and a: "a < 2 ^ range_bits R"
  then have "b mod 2 ^ range_bits R = b" by simp
  then have "r_sub R a b = (a - b + 2 ^ range_bits R) mod 2 ^ range_bits R"
    using ba a by (simp add: r_sub_def)
  also have "\<dots> = a - b"
    using a by simp
  finally show ?thesis .
qed

lemma r_mul_no_wrap: "a * b < 2 ^ range_bits R \<Longrightarrow> r_mul R a b = a * b"
  by (simp add: r_mul_def)

lemma k_probability_range_mask_less: "k_probability_range_mask P < 2 ^ k_max_bits P"
  by (simp add: k_probability_range_mask_def)

lemma exp_max_bits_le: "(2::nat) ^ k_max_bits P \<le> 2 ^ range_bits R"
  using k_max_bits_le_range_bits [of P R] by (simp add: power_increasing)

text \<open>The scan.\<close>

lemma scan_loop_le: "scan_loop C p k \<le> k - 1"
  by (induction k) auto

lemma scan_loop_above: "scan_loop C p k < j \<Longrightarrow> j < k \<Longrightarrow> p < C ! j"
proof (induction k)
  case 0
  then show ?case by simp
next
  case (Suc k)
  then show ?case
    by (cases "j = k") (auto split: if_splits)
qed

lemma scan_loop_found: "C ! 0 \<le> p \<Longrightarrow> C ! scan_loop C p k \<le> p"
  by (induction k) auto

lemma locate_le: "locate C n p \<le> n - 1"
  using scan_loop_le [of C p "n - 1"] by (auto simp add: locate_def Let_def)

lemma locate_found: "C ! 0 \<le> p \<Longrightarrow> C ! locate C n p \<le> p"
  by (auto simp add: locate_def Let_def scan_loop_found)

lemma locate_above: "locate C n p < j \<Longrightarrow> j < n \<Longrightarrow> p < C ! j"
proof -
  assume l: "locate C n p < j" and j: "j < n"
  show ?thesis
  proof (cases "n - 1 \<noteq> 0 \<and> C ! (n - 1) > p")
    case True
    then have e: "locate C n p = scan_loop C p (n - 1)"
      by (auto simp add: locate_def Let_def)
    show ?thesis
    proof (cases "j = n - 1")
      case True
      with \<open>n - 1 \<noteq> 0 \<and> C ! (n - 1) > p\<close> show ?thesis by simp
    next
      case False
      with j have "j < n - 1" by simp
      with l e scan_loop_above [of C p "n - 1" j] show ?thesis by simp
    qed
  next
    case False
    then have "locate C n p = n - 1"
      by (auto simp add: locate_def Let_def)
    with l j show ?thesis by simp
  qed
qed

lemma locate_top: "0 < n \<Longrightarrow> C ! (n - 1) \<le> p \<Longrightarrow> locate C n p = n - 1"
  by (auto simp add: locate_def Let_def)

lemma cumulative_nth_mono:
  "cumulative P n C \<Longrightarrow> i \<le> j \<Longrightarrow> j \<le> n \<Longrightarrow> C ! i \<le> C ! j"
  using sorted_wrt_nth_less [of "(<)" C i j]
  by (cases "i = j") (auto simp add: cumulative_def)

lemma cumulative_nth_less:
  "cumulative P n C \<Longrightarrow> i < j \<Longrightarrow> j \<le> n \<Longrightarrow> C ! i < C ! j"
  using sorted_wrt_nth_less [of "(<)" C i j]
  by (auto simp add: cumulative_def)

lemma cumulative_nth_bound: "cumulative P n C \<Longrightarrow> i \<le> n \<Longrightarrow> C ! i < 2 ^ k_max_bits P"
  by (simp add: cumulative_def)

lemma cumulative_nth_ge: "cumulative P n C \<Longrightarrow> i \<le> n \<Longrightarrow> i \<le> C ! i"
proof (induction i)
  case 0
  then show ?case by simp
next
  case (Suc i)
  then have "C ! i < C ! Suc i"
    by (intro cumulative_nth_less) simp_all
  with Suc show ?case by simp
qed

lemma cumulative_size:
  assumes c: "cumulative P n C" and w: "k_max_bits P < range_bits R"
  shows "Suc n < 2 ^ range_bits R"
proof -
  have "n \<le> C ! n"
    using c by (rule cumulative_nth_ge) simp
  also have "C ! n < 2 ^ k_max_bits P"
    using c by (rule cumulative_nth_bound) simp
  finally have "Suc n \<le> 2 ^ k_max_bits P" by simp
  also have "(2::nat) ^ k_max_bits P < 2 ^ range_bits R"
    using w by (simp add: power_strict_increasing)
  finally show ?thesis .
qed

definition case_A :: "probability_type_t \<Rightarrow> nat \<Rightarrow> nat \<Rightarrow> bool" where
  "case_A P l h \<longleftrightarrow> h AND k_hi_bit_val P = l AND k_hi_bit_val P"

definition case_B :: "probability_type_t \<Rightarrow> nat \<Rightarrow> nat \<Rightarrow> bool" where
  "case_B P l h \<longleftrightarrow> \<not> case_A P l h \<and> l AND k_low_bit_val P \<noteq> 0 \<and> \<not> h AND k_low_bit_val P \<noteq> 0"

definition adc_step_A :: "probability_type_t \<Rightarrow> max_range_type_t \<Rightarrow> scalable_adc_c \<Rightarrow> scalable_adc_c" where
  "adc_step_A P R st =
     adc_shift P R (fst (read1 (the (adc_stream st)))) (snd (read1 (the (adc_stream st)))) st"

definition adc_step_B :: "probability_type_t \<Rightarrow> max_range_type_t \<Rightarrow> scalable_adc_c \<Rightarrow> scalable_adc_c" where
  "adc_step_B P R st =
     adc_shift P R (fst (read1 (the (adc_stream st)))) (snd (read1 (the (adc_stream st))))
       (st\<lparr>adc_code := adc_code st XOR k_low_bit_val P,
           adc_low := adc_low st AND k_low_bit_mask P,
           adc_high := adc_high st OR k_low_bit_val P\<rparr>)"

lemma remove_range_loop_A:
  "case_A P (adc_low st) (adc_high st) \<Longrightarrow> adc_stream st \<noteq> None \<Longrightarrow>
     remove_range_loop P R st n = remove_range_loop P R (adc_step_A P R st) (Suc n)"
  by (subst remove_range_loop.simps) (auto simp add: case_A_def adc_step_A_def)

lemma remove_range_loop_B:
  "case_B P (adc_low st) (adc_high st) \<Longrightarrow> adc_stream st \<noteq> None \<Longrightarrow>
     remove_range_loop P R st n = remove_range_loop P R (adc_step_B P R st) (Suc n)"
  by (subst remove_range_loop.simps) (auto simp add: case_A_def case_B_def adc_step_B_def)

lemma remove_range_loop_exit:
  "\<not> case_A P (adc_low st) (adc_high st) \<Longrightarrow> \<not> case_B P (adc_low st) (adc_high st) \<Longrightarrow>
     remove_range_loop P R st n = Inr (st, n)"
  by (subst remove_range_loop.simps) (auto simp add: case_A_def case_B_def)

lemma adc_step_A_measure:
  "case_A P (adc_low st) (adc_high st) \<Longrightarrow>
     renorm_measure (k_max_bits P) (adc_low (adc_step_A P R st)) (adc_high (adc_step_A P R st))
       < renorm_measure (k_max_bits P) (adc_low st) (adc_high st)"
  using measure_case_A [of "adc_high st" P "adc_low st" R]
  by (simp add: case_A_def adc_step_A_def adc_shift_def)

lemma adc_step_B_measure:
  "case_B P (adc_low st) (adc_high st) \<Longrightarrow>
     renorm_measure (k_max_bits P) (adc_low (adc_step_B P R st)) (adc_high (adc_step_B P R st))
       < renorm_measure (k_max_bits P) (adc_low st) (adc_high st)"
  using measure_case_B [of "adc_low st" P "adc_high st" R]
  by (simp add: case_B_def adc_step_B_def adc_shift_def)

lemma adc_step_stream [simp]:
  "adc_stream (adc_step_A P R st) \<noteq> None" "adc_stream (adc_step_B P R st) \<noteq> None"
  by (simp_all add: adc_step_A_def adc_step_B_def adc_shift_def)

text \<open>The invariant rule of the decoder's loop.\<close>

lemma remove_range_loop_rule:
  assumes "I st" and "adc_stream st \<noteq> None"
    and "\<And>s. I s \<Longrightarrow> adc_stream s \<noteq> None \<Longrightarrow> case_A P (adc_low s) (adc_high s) \<Longrightarrow> I (adc_step_A P R s)"
    and "\<And>s. I s \<Longrightarrow> adc_stream s \<noteq> None \<Longrightarrow> case_B P (adc_low s) (adc_high s) \<Longrightarrow> I (adc_step_B P R s)"
  shows "\<exists>st' n'. remove_range_loop P R st n = Inr (st', n') \<and> I st'
    \<and> \<not> case_A P (adc_low st') (adc_high st') \<and> \<not> case_B P (adc_low st') (adc_high st')"
  using assms(1,2)
proof (induction "renorm_measure (k_max_bits P) (adc_low st) (adc_high st)" arbitrary: st n
    rule: less_induct)
  case less
  consider (A) "case_A P (adc_low st) (adc_high st)"
    | (B) "case_B P (adc_low st) (adc_high st)"
    | (E) "\<not> case_A P (adc_low st) (adc_high st)" "\<not> case_B P (adc_low st) (adc_high st)"
    by blast
  then show ?case
  proof cases
    case A
    from less.hyps [OF adc_step_A_measure [OF A] assms(3) [OF less.prems A] adc_step_stream(1)]
    show ?thesis
      unfolding remove_range_loop_A [OF A less.prems(2)] .
  next
    case B
    from less.hyps [OF adc_step_B_measure [OF B] assms(4) [OF less.prems B] adc_step_stream(2)]
    show ?thesis
      unfolding remove_range_loop_B [OF B less.prems(2)] .
  next
    case E
    with less.prems show ?thesis
      by (simp add: remove_range_loop_exit)
  qed
qed

definition ac_step_A :: "probability_type_t \<Rightarrow> max_range_type_t \<Rightarrow> bool \<Rightarrow> scalable_ac_c \<Rightarrow> scalable_ac_c" where
  "ac_step_A P R simulate st =
     renorm_shift P R
       (if simulate then st\<lparr>m_underflow_count := 0\<rparr>
        else st\<lparr>m_stream := Some (write_underflow
                   (uf_mask_of (drop_bit (k_hi_bit P) (m_high st) XOR 1))
                   (m_underflow_count st)
                   (stream_write (drop_bit (k_hi_bit P) (m_high st)) 1 (the (m_stream st)))),
                m_underflow_count := 0\<rparr>)"

definition ac_step_B :: "probability_type_t \<Rightarrow> max_range_type_t \<Rightarrow> scalable_ac_c \<Rightarrow> scalable_ac_c" where
  "ac_step_B P R st =
     renorm_shift P R
       (st\<lparr>m_underflow_count := r_add R (m_underflow_count st) 1,
           m_low := m_low st AND k_low_bit_mask P,
           m_high := m_high st OR k_low_bit_val P\<rparr>)"

lemma range_code_loop_A:
  "case_A P (m_low st) (m_high st) \<Longrightarrow> simulate \<or> m_stream st \<noteq> None \<Longrightarrow>
     range_code_loop P R simulate st cost n
       = range_code_loop P R simulate (ac_step_A P R simulate st)
           (r_add R cost (r_add R (m_underflow_count st) 1)) (Suc n)"
  by (subst range_code_loop.simps) (auto simp add: case_A_def ac_step_A_def)

lemma range_code_loop_B:
  "case_B P (m_low st) (m_high st) \<Longrightarrow>
     range_code_loop P R simulate st cost n
       = range_code_loop P R simulate (ac_step_B P R st) cost (Suc n)"
  by (subst range_code_loop.simps) (auto simp add: case_A_def case_B_def ac_step_B_def)

lemma range_code_loop_exit:
  "\<not> case_A P (m_low st) (m_high st) \<Longrightarrow> \<not> case_B P (m_low st) (m_high st) \<Longrightarrow>
     range_code_loop P R simulate st cost n = Inr (cost, st, n)"
  by (subst range_code_loop.simps) (auto simp add: case_A_def case_B_def)

lemma ac_step_A_measure:
  "case_A P (m_low st) (m_high st) \<Longrightarrow>
     renorm_measure (k_max_bits P) (m_low (ac_step_A P R simulate st)) (m_high (ac_step_A P R simulate st))
       < renorm_measure (k_max_bits P) (m_low st) (m_high st)"
  using measure_case_A [of "m_high st" P "m_low st" R]
  by (simp add: case_A_def ac_step_A_def renorm_shift_def)

lemma ac_step_B_measure:
  "case_B P (m_low st) (m_high st) \<Longrightarrow>
     renorm_measure (k_max_bits P) (m_low (ac_step_B P R st)) (m_high (ac_step_B P R st))
       < renorm_measure (k_max_bits P) (m_low st) (m_high st)"
  using measure_case_B [of "m_low st" P "m_high st" R]
  by (simp add: case_B_def ac_step_B_def renorm_shift_def)

lemma ac_step_stream:
  "simulate \<or> m_stream st \<noteq> None \<Longrightarrow> simulate \<or> m_stream (ac_step_A P R simulate st) \<noteq> None"
  "simulate \<or> m_stream st \<noteq> None \<Longrightarrow> simulate \<or> m_stream (ac_step_B P R st) \<noteq> None"
  by (auto simp add: ac_step_A_def ac_step_B_def renorm_shift_def)

text \<open>The invariant rule of the encoder's loop.\<close>

lemma range_code_loop_rule:
  assumes "I st cost" and "simulate \<or> m_stream st \<noteq> None"
    and "\<And>s c. I s c \<Longrightarrow> simulate \<or> m_stream s \<noteq> None \<Longrightarrow> case_A P (m_low s) (m_high s)
      \<Longrightarrow> I (ac_step_A P R simulate s) (r_add R c (r_add R (m_underflow_count s) 1))"
    and "\<And>s c. I s c \<Longrightarrow> simulate \<or> m_stream s \<noteq> None \<Longrightarrow> case_B P (m_low s) (m_high s)
      \<Longrightarrow> I (ac_step_B P R s) c"
  shows "\<exists>c' st' n'. range_code_loop P R simulate st cost n = Inr (c', st', n') \<and> I st' c'
    \<and> \<not> case_A P (m_low st') (m_high st') \<and> \<not> case_B P (m_low st') (m_high st')"
  using assms(1,2)
proof (induction "renorm_measure (k_max_bits P) (m_low st) (m_high st)" arbitrary: st cost n
    rule: less_induct)
  case less
  consider (A) "case_A P (m_low st) (m_high st)"
    | (B) "case_B P (m_low st) (m_high st)"
    | (E) "\<not> case_A P (m_low st) (m_high st)" "\<not> case_B P (m_low st) (m_high st)"
    by blast
  then show ?case
  proof cases
    case A
    from less.hyps [OF ac_step_A_measure [OF A] assms(3) [OF less.prems A]
        ac_step_stream(1) [OF less.prems(2)]]
    show ?thesis
      unfolding range_code_loop_A [OF A less.prems(2)] .
  next
    case B
    from less.hyps [OF ac_step_B_measure [OF B] assms(4) [OF less.prems B]
        ac_step_stream(2) [OF less.prems(2)]]
    show ?thesis
      unfolding range_code_loop_B [OF B] .
  next
    case E
    with less.prems show ?thesis
      by (simp add: range_code_loop_exit)
  qed
qed

lemma increment_loop_eq: "increment_loop P cs = map (\<lambda>c. p_add P c 1) cs"
  by (induction cs) simp_all

lemma length_increment_loop [simp]: "length (increment_loop P cs) = length cs"
  by (simp add: increment_loop_eq)

lemma scale_model_defined:
  "length C = Suc n \<Longrightarrow> Suc n < 2 ^ range_bits R \<Longrightarrow>
     \<exists>C'. scale_model P R n C = Inr C' \<and> length C' = Suc n"
  by (cases C) (simp_all add: scale_model_eq)

lemma update_model_defined:
  assumes len: "length C = Suc n" and n: "Suc n < 2 ^ range_bits R"
  shows "\<exists>C'. update_model P R n s C = Inr C' \<and> length C' = Suc n"
proof -
  define p0 where "p0 = r_add R s 1"
  have p1: "r_add R n 1 = Suc n"
    using n by (simp add: r_add_no_wrap)
  define C1 where "C1 = (if p0 < Suc n
      then take p0 C @ increment_loop P (take (Suc n - p0) (drop p0 C)) @ drop (Suc n) C else C)"
  have l1: "length C1 = Suc n"
    using len by (auto simp add: C1_def)
  have "update_model P R n s C = (if C1 ! n \<ge> k_max_range P then scale_model P R n C1 else Inr C1)"
    using len l1 unfolding update_model_def p1 Let_def p0_def [symmetric] C1_def [symmetric]
    by simp
  with scale_model_defined [OF l1 n, of P] l1 show ?thesis
    by auto
qed

lemma adc_step_fields [simp]:
  "adc_probability (adc_step_A P R st) = adc_probability st"
  "adc_max_syms (adc_step_A P R st) = adc_max_syms st"
  "adc_tmp_range (adc_step_A P R st) = adc_tmp_range st"
  "adc_probability (adc_step_B P R st) = adc_probability st"
  "adc_max_syms (adc_step_B P R st) = adc_max_syms st"
  "adc_tmp_range (adc_step_B P R st) = adc_tmp_range st"
  by (simp_all add: adc_step_A_def adc_step_B_def adc_shift_def)

lemma remove_range_loop_defined:
  assumes "adc_stream st \<noteq> None"
  shows "\<exists>st' n'. remove_range_loop P R st n = Inr (st', n')
    \<and> adc_probability st' = adc_probability st \<and> adc_max_syms st' = adc_max_syms st
    \<and> adc_stream st' \<noteq> None"
proof -
  define I where "I s \<longleftrightarrow> adc_probability s = adc_probability st
      \<and> adc_max_syms s = adc_max_syms st \<and> adc_stream s \<noteq> None" for s :: scalable_adc_c
  have "I st"
    using assms by (simp add: I_def)
  from remove_range_loop_rule [of I, OF this assms, of P R n] show ?thesis
    by (auto simp add: I_def)
qed

lemma remove_range_defined:
  assumes C: "adc_probability st = Some C" and len: "length C = Suc (adc_max_syms st)"
    and n: "Suc (adc_max_syms st) < 2 ^ range_bits R"
    and s: "s < adc_max_syms st" and t: "C ! adc_max_syms st \<noteq> 0"
    and src: "adc_stream st \<noteq> None"
  shows "\<exists>st'. remove_range P R s st = Inr st'
    \<and> adc_probability st' = Some C \<and> adc_max_syms st' = adc_max_syms st \<and> adc_stream st' \<noteq> None"
proof -
  have s1: "r_add R s 1 = Suc s"
    using s n by (simp add: r_add_no_wrap)
  let ?tmp = "r_add R (r_sub R (adc_high st) (adc_low st)) 1"
  let ?st1 = "st\<lparr>adc_tmp_range := ?tmp,
      adc_high := r_sub R (r_add R (adc_low st) (r_mul R ?tmp (C ! Suc s) div C ! adc_max_syms st)) 1,
      adc_low := r_add R (adc_low st) (r_mul R ?tmp (C ! s) div C ! adc_max_syms st)\<rparr>"
  have "adc_stream ?st1 \<noteq> None"
    using src by simp
  from remove_range_loop_defined [OF this, of P R 0]
  obtain st' n' where "remove_range_loop P R ?st1 0 = Inr (st', n')"
    and "adc_probability st' = Some C" "adc_max_syms st' = adc_max_syms st" "adc_stream st' \<noteq> None"
    using C by auto
  then show ?thesis
    using C len s t unfolding remove_range_def s1
    by (simp add: Let_def)
qed

lemma get_current_prob_state:
  "get_current_prob R rng st = Inr (p, st1) \<Longrightarrow>
     st1 = st\<lparr>adc_tmp_range := r_add R (r_sub R (adc_high st) (adc_low st)) 1\<rparr>"
  by (auto simp add: get_current_prob_def Let_def split: if_splits)

lemma decode_symbol_defined:
  assumes C: "adc_probability st = Some C" and len: "length C = Suc (adc_max_syms st)"
    and n: "Suc (adc_max_syms st) < 2 ^ range_bits R"
    and pos: "0 < adc_max_syms st" and t: "C ! adc_max_syms st \<noteq> 0"
    and src: "adc_stream st \<noteq> None"
    and p: "get_current_prob R (C ! adc_max_syms st) st = Inr (p, st1)"
  shows "\<exists>st'. decode_symbol P R st = Inr (locate C (adc_max_syms st) p, st')"
proof -
  let ?s = "locate C (adc_max_syms st) p"
  note st1 = get_current_prob_state [OF p]
  have s: "?s < adc_max_syms st"
    using locate_le [of C "adc_max_syms st" p] pos by simp
  have "\<exists>st'. remove_range P R ?s st1 = Inr st'
    \<and> adc_probability st' = Some C \<and> adc_max_syms st' = adc_max_syms st1 \<and> adc_stream st' \<noteq> None"
    using C len n s t src unfolding st1 by (intro remove_range_defined) simp_all
  then obtain st2 where r: "remove_range P R ?s st1 = Inr st2"
    and f: "adc_probability st2 = Some C" "adc_max_syms st2 = adc_max_syms st"
    unfolding st1 by auto
  from update_model_defined [OF len n, of P ?s]
  obtain C' where "update_model P R (adc_max_syms st) ?s C = Inr C'"
    by auto
  with r f p C len show ?thesis
    by (simp add: decode_symbol_def Let_def)
qed

section \<open>The decoder's symbol location\<close>

lemma get_current_prob_eq:
  assumes types: "2 * k_max_bits P \<le> range_bits R"
    and range: "adc_low st \<le> adc_code st" "adc_code st \<le> adc_high st"
      "adc_high st \<le> k_probability_range_mask P"
    and T: "1 \<le> T" "T < 2 ^ k_max_bits P"
  shows "get_current_prob R T st
      = Inr (((adc_code st - adc_low st + 1) * T - 1) div (adc_high st - adc_low st + 1),
             st\<lparr>adc_tmp_range := adc_high st - adc_low st + 1\<rparr>)"
    and "((adc_code st - adc_low st + 1) * T - 1) div (adc_high st - adc_low st + 1) < T"
proof -
  let ?w = "k_max_bits P"
  let ?l = "adc_low st" and ?h = "adc_high st" and ?c = "adc_code st"
  have h: "?h < 2 ^ ?w"
    using range(3) k_probability_range_mask_less [of P] by simp
  have ww: "(2::nat) ^ ?w * 2 ^ ?w \<le> 2 ^ range_bits R"
    using types by (simp add: power_increasing flip: power_add mult_2)
  have w1: "(2::nat) ^ ?w < 2 ^ range_bits R"
    using types k_max_bits_ge [of P] by (simp add: power_strict_increasing)
  have hR: "?h < 2 ^ range_bits R" and cR: "?c < 2 ^ range_bits R"
    using h w1 range by linarith+
  have r: "r_add R (r_sub R ?h ?l) 1 = ?h - ?l + 1"
  proof -
    have "?h - ?l + 1 < 2 ^ range_bits R"
      using h w1 by linarith
    with range hR show ?thesis
      by (simp add: r_sub_no_wrap r_add_no_wrap)
  qed
  have x: "r_add R (r_sub R ?c ?l) 1 = ?c - ?l + 1"
  proof -
    have "?c - ?l + 1 < 2 ^ range_bits R"
      using h w1 range by linarith
    with range cR show ?thesis
      by (simp add: r_sub_no_wrap r_add_no_wrap)
  qed
  have "(?c - ?l + 1) * T < 2 ^ ?w * 2 ^ ?w"
    using range h T by (intro mult_le_less_imp_less) simp_all
  with ww have m: "(?c - ?l + 1) * T < 2 ^ range_bits R"
    by simp
  have pos: "1 \<le> (?c - ?l + 1) * T"
    using T by simp
  have s: "r_sub R (r_mul R (?c - ?l + 1) T) 1 = (?c - ?l + 1) * T - 1"
    using m pos by (simp add: r_mul_no_wrap r_sub_no_wrap)
  show "get_current_prob R T st
      = Inr (((?c - ?l + 1) * T - 1) div (?h - ?l + 1), st\<lparr>adc_tmp_range := ?h - ?l + 1\<rparr>)"
    unfolding get_current_prob_def Let_def r x s by simp
  have "(?c - ?l + 1) * T \<le> (?h - ?l + 1) * T"
    using range by (intro mult_le_mono1) simp
  with pos have "(?c - ?l + 1) * T - 1 < (?h - ?l + 1) * T"
    by linarith
  then have "(?c - ?l + 1) * T - 1 < T * (?h - ?l + 1)"
    by (simp only: mult.commute)
  then show "((?c - ?l + 1) * T - 1) div (?h - ?l + 1) < T"
    by (simp add: div_less_iff_less_mult)
qed

lemma locate_unique:
  assumes C: "cumulative P n C" and s: "s < n" "C ! s \<le> p" "p < C ! Suc s"
    and t: "t < n" "C ! t \<le> p" "p < C ! Suc t"
  shows "s = t"
proof (rule ccontr)
  assume "s \<noteq> t"
  then consider "s < t" | "t < s" by linarith
  then show False
  proof cases
    case 1
    then have "C ! Suc s \<le> C ! t"
      using cumulative_nth_mono [OF C, of "Suc s" t] t by simp
    with s t show False by simp
  next
    case 2
    then have "C ! Suc t \<le> C ! s"
      using cumulative_nth_mono [OF C, of "Suc t" s] s by simp
    with s t show False by simp
  qed
qed

lemma locate_correct:
  assumes C: "cumulative P n C" and p: "p < C ! n"
  shows "locate C n p < n" and "C ! locate C n p \<le> p" and "p < C ! Suc (locate C n p)"
proof -
  have z: "C ! 0 = 0"
    using C by (simp add: cumulative_def)
  with p have n: "0 < n"
    by (cases n) simp_all
  with locate_le [of C n p] show l: "locate C n p < n"
    by simp
  show "C ! locate C n p \<le> p"
    using z by (simp add: locate_found)
  show "p < C ! Suc (locate C n p)"
  proof (cases "Suc (locate C n p) = n")
    case True
    with p show ?thesis by simp
  next
    case False
    with l have "Suc (locate C n p) < n" by simp
    then show ?thesis
      by (intro locate_above) simp_all
  qed
qed

text \<open>
  C4: in a decoder state that satisfies the range invariant
  (\<open>low \<le> code \<le> high \<le> RANGE_MASK\<close>), over a cumulative table with a total of at least
  1 and a range type of at least twice the counter width, \<open>get_current_prob\<close> returns
  \<open>p = (((code - low) + 1) * C[N] - 1) / ((high - low) + 1)\<close> with no wrap-around, \<open>p\<close> is
  below \<open>C[N]\<close>, and the downward scan of \<open>decode_symbol\<close> returns the one symbol \<open>s\<close>
  with \<open>C[s] \<le> p < C[s + 1]\<close>; with a stream attached \<open>decode_symbol\<close> returns that symbol.
\<close>

theorem decode_symbol_locates:
  assumes types: "2 * k_max_bits P \<le> range_bits R"
    and C: "adc_probability st = Some C" "cumulative P (adc_max_syms st) C"
    and range: "adc_low st \<le> adc_code st" "adc_code st \<le> adc_high st"
      "adc_high st \<le> k_probability_range_mask P"
    and total: "1 \<le> C ! adc_max_syms st"
  defines "p \<equiv> ((adc_code st - adc_low st + 1) * C ! adc_max_syms st - 1)
      div (adc_high st - adc_low st + 1)"
  shows "get_current_prob R (C ! adc_max_syms st) st
        = Inr (p, st\<lparr>adc_tmp_range := adc_high st - adc_low st + 1\<rparr>)
    \<and> p < C ! adc_max_syms st
    \<and> locate C (adc_max_syms st) p < adc_max_syms st
    \<and> C ! locate C (adc_max_syms st) p \<le> p \<and> p < C ! Suc (locate C (adc_max_syms st) p)
    \<and> (\<forall>s<adc_max_syms st. C ! s \<le> p \<and> p < C ! Suc s \<longrightarrow> s = locate C (adc_max_syms st) p)
    \<and> (adc_stream st \<noteq> None \<longrightarrow>
         (\<exists>st'. decode_symbol P R st = Inr (locate C (adc_max_syms st) p, st')))"
proof -
  let ?n = "adc_max_syms st"
  have T: "C ! ?n < 2 ^ k_max_bits P"
    using C(2) by (rule cumulative_nth_bound) simp
  note g = get_current_prob_eq [OF types range total T, folded p_def]
  note l = locate_correct [OF C(2) g(2)]
  have u: "s = locate C ?n p" if "s < ?n" "C ! s \<le> p" "p < C ! Suc s" for s
    using C(2) that l by (rule locate_unique)
  have d: "\<exists>st'. decode_symbol P R st = Inr (locate C ?n p, st')" if "adc_stream st \<noteq> None"
  proof -
    have "k_max_bits P < range_bits R"
      using types k_max_bits_ge [of P] by simp
    from cumulative_size [OF C(2) this] have "Suc ?n < 2 ^ range_bits R" .
    moreover have "length C = Suc ?n"
      using C(2) by (simp add: cumulative_def)
    moreover have "0 < ?n"
      using l(1) by simp
    ultimately show ?thesis
      using C(1) total that g(1) by (intro decode_symbol_defined) simp_all
  qed
  from g l u d show ?thesis
    by blast
qed

theorem decode_symbol_locates_witness:
  "cumulative P_uint8 2 [0, 1, 2] \<and> 2 * k_max_bits P_uint8 \<le> range_bits R_uint32
   \<and> locate [0, 1, 2] 2 1 = 1
   \<and> (\<exists>st'. decode_symbol P_uint8 R_uint32
        \<lparr>adc_stream = Some [], adc_high = 255, adc_low = 0, adc_tmp_range = 0,
         adc_max_syms = 2, adc_code = 200, adc_probability = Some [0, 1, 2]\<rparr> = Inr (1, st'))"
proof -
  let ?st = "\<lparr>adc_stream = Some [], adc_high = 255, adc_low = 0, adc_tmp_range = 0,
         adc_max_syms = 2, adc_code = 200, adc_probability = Some [0, 1, 2]\<rparr>"
  have t: "2 * k_max_bits P_uint8 \<le> range_bits R_uint32"
    by (simp add: k_max_bits_def range_bits_def)
  have c: "cumulative P_uint8 (adc_max_syms ?st) [0, 1, 2]"
    by (simp add: cumulative_def k_max_bits_def)
  have l: "locate [0, 1, 2] 2 1 = 1"
    by (simp add: locate_def)
  have p: "((adc_code ?st - adc_low ?st + 1) * [0, 1, 2] ! adc_max_syms ?st - 1)
      div (adc_high ?st - adc_low ?st + 1) = 1"
    by simp
  have "(\<exists>st'. decode_symbol P_uint8 R_uint32 ?st = Inr (locate [0, 1, 2] (adc_max_syms ?st) 1, st'))"
    using decode_symbol_locates [OF t _ c, unfolded p]
    by (simp add: k_probability_range_mask_def k_max_bits_def)
  with t c l show ?thesis
    by simp
qed

section \<open>Corrupt streams\<close>

text \<open>
  C5, amended: \<open>decode_symbol\<close> has no error for a corrupt stream. Over a cumulative table
  and with a stream attached, whatever \<open>p\<close> is, it returns the symbol the scan stops at,
  a symbol below \<open>N\<close>; when \<open>p \<ge> C[N]\<close> that symbol is \<open>N - 1\<close>.
\<close>

theorem decode_symbol_returns_symbol:
  assumes C: "adc_probability st = Some C" "cumulative P (adc_max_syms st) C"
    and pos: "0 < adc_max_syms st" and types: "k_max_bits P < range_bits R"
    and src: "adc_stream st \<noteq> None"
    and p: "get_current_prob R (C ! adc_max_syms st) st = Inr (p, st1)"
  shows "(\<exists>st'. decode_symbol P R st = Inr (locate C (adc_max_syms st) p, st'))
    \<and> locate C (adc_max_syms st) p < adc_max_syms st
    \<and> (C ! adc_max_syms st \<le> p \<longrightarrow> locate C (adc_max_syms st) p = adc_max_syms st - 1)"
proof -
  let ?n = "adc_max_syms st"
  have len: "length C = Suc ?n"
    using C(2) by (simp add: cumulative_def)
  have "?n \<le> C ! ?n"
    using C(2) by (rule cumulative_nth_ge) simp
  with pos have t: "C ! ?n \<noteq> 0"
    by simp
  from decode_symbol_defined [OF C(1) len cumulative_size [OF C(2) types] pos t src p]
  have d: "\<exists>st'. decode_symbol P R st = Inr (locate C ?n p, st')" .
  have l: "locate C ?n p < ?n"
    using locate_le [of C ?n p] pos by simp
  have "locate C ?n p = ?n - 1" if "C ! ?n \<le> p"
  proof -
    have "C ! (?n - 1) \<le> C ! ?n"
      using C(2) by (rule cumulative_nth_mono) simp_all
    with that have "C ! (?n - 1) \<le> p"
      by simp
    with pos show ?thesis
      by (rule locate_top)
  qed
  with d l show ?thesis
    by blast
qed

text \<open>
  A decoder state with \<open>code\<close> above \<open>high\<close> (one a caller can set up through
  \<open>restore_state\<close>): \<open>p = 3\<close> with \<open>C[N] = 2\<close>, and \<open>decode_symbol\<close> returns the symbol 1.
\<close>

definition corrupt_adc :: scalable_adc_c where
  "corrupt_adc = \<lparr>adc_stream = Some [], adc_high = 3, adc_low = 0, adc_tmp_range = 0,
     adc_max_syms = 2, adc_code = 7, adc_probability = Some [0, 1, 2]\<rparr>"

lemma corrupt_prob:
  "get_current_prob R_uint32 ([0, 1, 2] ! 2) corrupt_adc = Inr (3, corrupt_adc\<lparr>adc_tmp_range := 4\<rparr>)"
  by (simp add: get_current_prob_def corrupt_adc_def r_add_def r_sub_def r_mul_def range_bits_def)

theorem decode_symbol_returns_symbol_witness:
  "cumulative P_uint8 (adc_max_syms corrupt_adc) [0, 1, 2] \<and> k_max_bits P_uint8 < range_bits R_uint32
   \<and> (\<exists>st'. decode_symbol P_uint8 R_uint32 corrupt_adc = Inr (1, st'))"
proof -
  have c: "cumulative P_uint8 (adc_max_syms corrupt_adc) [0, 1, 2]"
    by (simp add: cumulative_def k_max_bits_def corrupt_adc_def)
  have t: "k_max_bits P_uint8 < range_bits R_uint32"
    by (simp add: k_max_bits_def range_bits_def)
  have p: "get_current_prob R_uint32 ([0, 1, 2] ! adc_max_syms corrupt_adc) corrupt_adc
      = Inr (3, corrupt_adc\<lparr>adc_tmp_range := 4\<rparr>)"
    using corrupt_prob by (simp add: corrupt_adc_def)
  have l: "locate [0, 1, 2] (adc_max_syms corrupt_adc) 3 = 1"
    by (simp add: locate_def corrupt_adc_def)
  from decode_symbol_returns_symbol [OF _ c _ t _ p, unfolded l]
  have "\<exists>st'. decode_symbol P_uint8 R_uint32 corrupt_adc = Inr (1, st')"
    by (simp add: corrupt_adc_def)
  with c t show ?thesis
    by simp
qed

theorem decode_symbol_no_corrupt_counterexample:
  "get_current_prob R_uint32 ([0, 1, 2] ! 2) corrupt_adc = Inr (3, corrupt_adc\<lparr>adc_tmp_range := 4\<rparr>)
   \<and> [0, 1, 2 :: nat] ! 2 \<le> 3
   \<and> decode_symbol P_uint8 R_uint32 corrupt_adc
     = Inr (1, \<lparr>adc_stream = Some [], adc_high = 255, adc_low = 0, adc_tmp_range = 4,
         adc_max_syms = 2, adc_code = 128, adc_probability = Some [0, 1, 3]\<rparr>)"
  by (simp add: get_current_prob_def decode_symbol_def corrupt_adc_def locate_def
      remove_range_def remove_range_loop.simps
      update_model_def adc_shift_def shift_low_eq shift_high_eq
      k_hi_bit_val_def k_low_bit_val_def k_low_bit_mask_def k_probability_range_mask_def
      k_max_bits_def k_max_range_def r_add_def r_sub_def r_mul_def r_shl1_def range_bits_def p_add_def)

section \<open>Expanding the alphabet\<close>

lemma init_code_empty: "init_code R k 0 [] = (0, [])"
  by (induction k) (simp_all add: r_shl1_def)

lemma init_model_1: "init_model P_uint8 (Suc 0) = [0, Suc 0]"
  by (simp add: init_model_def k_max_bits_def)

text \<open>
  C2 fails in \<open>expand\<close>. After \<open>init\<close> with one symbol and \<open>expand\<close> to two, the encoder's
  table is \<open>[0, 1, 2]\<close> and the decoder's is \<open>[0, 1, 0]\<close>: the decoder numbers the new
  entries from 0, so its table falls from \<open>C[1] = 1\<close> to \<open>C[2] = 0\<close>.
\<close>

theorem expand_after_init:
  "m_probability (snd (projr (expand P_uint8 R_uint32 2
      (snd (projr (init P_uint8 R_uint32 1 (Some []) (scalable_ac_c_new P_uint8)))))))
     = Some [0, 1, 2]
   \<and> adc_probability (snd (projr (adc_expand P_uint8 R_uint32 2
      (snd (projr (adc_init P_uint8 R_uint32 1 (Some []) scalable_adc_c_new))))))
     = Some [0, 1, 0]"
  by (simp add: expand_def init_def adc_expand_def adc_init_def scalable_ac_c_new_def
      scalable_adc_c_new_def init_model_1 init_code_empty flush_def r_add_def range_bits_def
      k_max_bits_def upt_conv_Cons)

theorem expand_after_init_witness:
  "\<not> sorted_wrt (\<le>) (the (adc_probability (snd (projr (adc_expand P_uint8 R_uint32 2
      (snd (projr (adc_init P_uint8 R_uint32 1 (Some []) scalable_adc_c_new))))))))"
  using expand_after_init by simp


section \<open>Cost estimation\<close>

lemma stream_write_1: "stream_write v (Suc 0) out = out @ [bit v 0]"
  by (simp add: stream_write_def)

lemma stream_write_mask:
  "n \<le> 64 \<Longrightarrow> stream_write (uf_mask_of b) n out = out @ replicate n (b \<noteq> 0)"
proof -
  assume n: "n \<le> 64"
  have m: "(2::nat) ^ 64 - 1 = mask 64"
    by (simp add: mask_eq_exp_minus_1)
  have "map (bit (uf_mask_of b)) (rev [0..<n]) = replicate n (b \<noteq> 0)"
    using n unfolding uf_mask_of_def m
    by (intro replicate_eqI) (auto simp add: bit_mask_iff split: if_splits)
  then show ?thesis
    by (simp add: stream_write_def)
qed

lemma write_underflow_eq:
  "write_underflow (uf_mask_of b) uf out = out @ replicate uf (b \<noteq> 0)"
proof (induction "uf_mask_of b" uf out rule: write_underflow.induct)
  case (1 uf out)
  show ?case
  proof (cases "uf \<ge> 64")
    case True
    then have "replicate 64 (b \<noteq> 0) @ replicate (uf - 64) (b \<noteq> 0) = replicate uf (b \<noteq> 0)"
      by (simp flip: replicate_add)
    with "1.hyps" [OF True] True show ?thesis
      by (subst write_underflow.simps) (simp add: stream_write_mask)
  next
    case False
    then show ?thesis
      by (subst write_underflow.simps) (simp add: stream_write_mask)
  qed
qed

lemma ac_step_A_stream:
  "ac_step_A P R True (st\<lparr>m_stream := S\<rparr>) = (ac_step_A P R True st)\<lparr>m_stream := S\<rparr>"
  "ac_step_A P R False st\<lparr>m_stream := S\<rparr> = (ac_step_A P R True st)\<lparr>m_stream := S\<rparr>"
  by (simp_all add: ac_step_A_def renorm_shift_def)

lemma ac_step_B_stream:
  "ac_step_B P R (st\<lparr>m_stream := S\<rparr>) = (ac_step_B P R st)\<lparr>m_stream := S\<rparr>"
  by (simp add: ac_step_B_def renorm_shift_def)

lemma ac_step_A_written:
  "m_stream st = Some out \<Longrightarrow>
     m_stream (ac_step_A P R False st)
       = Some (out @ bit (drop_bit (k_hi_bit P) (m_high st)) 0
                # replicate (m_underflow_count st) (drop_bit (k_hi_bit P) (m_high st) XOR 1 \<noteq> 0))"
  by (simp add: ac_step_A_def renorm_shift_def write_underflow_eq stream_write_1)

lemma ac_step_fields [simp]:
  "m_underflow_count (ac_step_A P R simulate st) = 0"
  "m_underflow_count (ac_step_B P R st) = r_add R (m_underflow_count st) 1"
  "m_stream (ac_step_B P R st) = m_stream st"
  "m_stream (ac_step_A P R True st) = m_stream st"
  "m_probability (ac_step_A P R simulate st) = m_probability st"
  "m_probability (ac_step_B P R st) = m_probability st"
  "m_max_syms (ac_step_A P R simulate st) = m_max_syms st"
  "m_max_syms (ac_step_B P R st) = m_max_syms st"
  "m_flushed (ac_step_A P R simulate st) = m_flushed st"
  "m_flushed (ac_step_B P R st) = m_flushed st"
  "m_tmp_range (ac_step_A P R simulate st) = m_tmp_range st"
  "m_tmp_range (ac_step_B P R st) = m_tmp_range st"
  by (simp_all add: ac_step_A_def ac_step_B_def renorm_shift_def)

lemma range_code_loop_null:
  "case_A P (m_low st) (m_high st) \<Longrightarrow> m_stream st = None \<Longrightarrow>
     range_code_loop P R False st cost n = Inl NullPointer"
  by (subst range_code_loop.simps) (simp add: case_A_def)

lemma r_add_less [simp]: "r_add R a b < 2 ^ range_bits R"
  by (simp add: r_add_def)

lemma r_add_le: "r_add R a b \<le> a + b"
  by (simp add: r_add_def)

text \<open>
  What a run of the loop has written: \<open>bits\<close> after the stream of \<open>st\<close> (nothing without a
  stream), \<open>c\<close> their number added to \<open>cost\<close> in the range type, at most \<open>passes\<close> bits
  more than the pending underflow count accounts for.
\<close>

definition written :: "max_range_type_t \<Rightarrow> scalable_ac_c \<Rightarrow> scalable_ac_c \<Rightarrow> nat \<Rightarrow> nat \<Rightarrow> nat
    \<Rightarrow> bool list \<Rightarrow> bool" where
  "written R st st' cost c passes bits \<longleftrightarrow>
     m_stream st' = map_option (\<lambda>out. out @ bits) (m_stream st)
     \<and> (m_stream st = None \<longrightarrow> bits = [])
     \<and> c = (cost + length bits) mod 2 ^ range_bits R
     \<and> length bits + m_underflow_count st' \<le> m_underflow_count st + passes"

lemma range_code_loop_simulate:
  assumes "range_code_loop P R False st cost n = Inr (c, st', n')" and "cost < 2 ^ range_bits R"
  shows "range_code_loop P R True (st\<lparr>m_stream := S\<rparr>) cost n = Inr (c, st'\<lparr>m_stream := S\<rparr>, n')
    \<and> n \<le> n' \<and> (\<exists>bits. written R st st' cost c (n' - n) bits)"
  using assms
proof (induction "renorm_measure (k_max_bits P) (m_low st) (m_high st)" arbitrary: st cost n
    rule: less_induct)
  case less
  let ?M = "2 ^ range_bits R :: nat"
  consider (A) "case_A P (m_low st) (m_high st)"
    | (B) "case_B P (m_low st) (m_high st)"
    | (E) "\<not> case_A P (m_low st) (m_high st)" "\<not> case_B P (m_low st) (m_high st)"
    by blast
  then show ?case
  proof cases
    case A
    from less.prems(1) A obtain out where out: "m_stream st = Some out"
      by (cases "m_stream st") (simp_all add: range_code_loop_null)
    let ?st = "ac_step_A P R False st"
    let ?cost = "r_add R cost (r_add R (m_underflow_count st) 1)"
    let ?new = "bit (drop_bit (k_hi_bit P) (m_high st)) 0
                # replicate (m_underflow_count st) (drop_bit (k_hi_bit P) (m_high st) XOR 1 \<noteq> 0)"
    have real: "range_code_loop P R False ?st ?cost (Suc n) = Inr (c, st', n')"
      using less.prems(1) range_code_loop_A [OF A, of False R cost n] out by simp
    from less.hyps [OF ac_step_A_measure [OF A] real r_add_less] obtain bits
      where sim: "range_code_loop P R True (?st\<lparr>m_stream := S\<rparr>) ?cost (Suc n)
          = Inr (c, st'\<lparr>m_stream := S\<rparr>, n')"
        and n: "Suc n \<le> n'"
        and wr: "written R ?st st' ?cost c (n' - Suc n) bits"
      by blast
    from wr have bits: "m_stream st' = map_option (\<lambda>out. out @ bits) (m_stream ?st)"
        and c: "c = (?cost + length bits) mod ?M"
        and len: "length bits + m_underflow_count st' \<le> m_underflow_count ?st + (n' - Suc n)"
      by (simp_all add: written_def)
    have A': "case_A P (m_low (st\<lparr>m_stream := S\<rparr>)) (m_high (st\<lparr>m_stream := S\<rparr>))"
      using A by simp
    have s: "range_code_loop P R True (st\<lparr>m_stream := S\<rparr>) cost n = Inr (c, st'\<lparr>m_stream := S\<rparr>, n')"
      using sim range_code_loop_A [OF A', of True R cost n]
      by (simp add: ac_step_A_stream)
    have w: "m_stream st' = map_option (\<lambda>out. out @ ?new @ bits) (m_stream st)"
      using bits out by (simp add: ac_step_A_written)
    have c': "c = (cost + length (?new @ bits)) mod ?M"
      unfolding c by (simp add: r_add_def mod_simps) (simp only: add.assoc)
    have len': "length (?new @ bits) + m_underflow_count st' \<le> m_underflow_count st + (n' - n)"
      using len n by simp
    from w c' len' out have "written R st st' cost c (n' - n) (?new @ bits)"
      unfolding written_def by simp
    with s n show ?thesis
      by (intro conjI exI [of _ "?new @ bits"]) simp_all
  next
    case B
    let ?st = "ac_step_B P R st"
    have real: "range_code_loop P R False ?st cost (Suc n) = Inr (c, st', n')"
      using less.prems(1) range_code_loop_B [OF B, of R False cost n] by simp
    from less.hyps [OF ac_step_B_measure [OF B] real less.prems(2)] obtain bits
      where sim: "range_code_loop P R True (?st\<lparr>m_stream := S\<rparr>) cost (Suc n)
          = Inr (c, st'\<lparr>m_stream := S\<rparr>, n')"
        and n: "Suc n \<le> n'"
        and wr: "written R ?st st' cost c (n' - Suc n) bits"
      by blast
    have B': "case_B P (m_low (st\<lparr>m_stream := S\<rparr>)) (m_high (st\<lparr>m_stream := S\<rparr>))"
      using B by simp
    have s: "range_code_loop P R True (st\<lparr>m_stream := S\<rparr>) cost n = Inr (c, st'\<lparr>m_stream := S\<rparr>, n')"
      using sim range_code_loop_B [OF B', of R True cost n]
      by (simp add: ac_step_B_stream)
    have "written R st st' cost c (n' - n) bits"
      using wr n r_add_le [of R "m_underflow_count st" 1] unfolding written_def
      by (elim conjE, intro conjI) simp_all
    with s n show ?thesis
      by (intro conjI exI [of _ bits]) simp_all
  next
    case E
    then have E': "\<not> case_A P (m_low (st\<lparr>m_stream := S\<rparr>)) (m_high (st\<lparr>m_stream := S\<rparr>))"
      "\<not> case_B P (m_low (st\<lparr>m_stream := S\<rparr>)) (m_high (st\<lparr>m_stream := S\<rparr>))"
      by simp_all
    from less.prems(1) E have e: "c = cost" "st' = st" "n' = n"
      by (simp_all add: range_code_loop_exit)
    have "written R st st' cost c (n' - n) []"
      using e less.prems(2) unfolding written_def by (simp add: option.map_ident)
    with e E' show ?thesis
      by (intro conjI exI [of _ "[]"]) (simp_all add: range_code_loop_exit)
  qed
qed

lemma update_probability_stream:
  "update_probability P R s (st\<lparr>m_stream := S\<rparr>)
     = (case update_probability P R s st of Inl e \<Rightarrow> Inl e | Inr st' \<Rightarrow> Inr (st'\<lparr>m_stream := S\<rparr>))"
  by (simp add: update_probability_def split: option.splits sum.splits)

lemma update_probability_fields:
  "update_probability P R s st = Inr st' \<Longrightarrow>
     m_stream st' = m_stream st \<and> m_underflow_count st' = m_underflow_count st
     \<and> m_max_syms st' = m_max_syms st \<and> m_high st' = m_high st \<and> m_low st' = m_low st
     \<and> m_flushed st' = m_flushed st \<and> m_tmp_range st' = m_tmp_range st"
  by (auto simp add: update_probability_def split: option.splits sum.splits)

lemma range_code_simulate:
  assumes "range_code P R s False st = Inr (c, st1)"
  shows "range_code P R s True st = Inr (c, st1\<lparr>m_stream := m_stream st\<rparr>)
    \<and> (\<exists>bits. written R st st1 0 c (k_max_bits P) bits)"
proof -
  from assms obtain C where C: "m_probability st = Some C"
    by (cases "m_probability st") (simp_all add: range_code_def)
  let ?tmp = "r_add R (r_sub R (m_high st) (m_low st)) 1"
  let ?st = "st\<lparr>m_tmp_range := ?tmp,
      m_high := r_sub R (r_add R (m_low st) (r_mul R ?tmp (C ! r_add R s 1) div C ! m_max_syms st)) 1,
      m_low := r_add R (m_low st) (r_mul R ?tmp (C ! s) div C ! m_max_syms st)\<rparr>"
  from assms C have ok: "s < length C" "r_add R s 1 < length C" "m_max_syms st < length C"
      "C ! m_max_syms st \<noteq> 0"
    by (auto simp add: range_code_def Let_def split: if_splits)
  with assms C obtain n' where real: "range_code_loop P R False ?st 0 0 = Inr (c, st1, n')"
    by (auto simp add: range_code_def Let_def split: sum.splits)
  from range_code_loop_simulate [OF real, of "m_stream st"] obtain bits
    where sim: "range_code_loop P R True (?st\<lparr>m_stream := m_stream st\<rparr>) 0 0
        = Inr (c, st1\<lparr>m_stream := m_stream st\<rparr>, n')"
      and wr: "written R ?st st1 0 c (n' - 0) bits"
    by auto
  have same: "?st\<lparr>m_stream := m_stream st\<rparr> = ?st"
    by simp
  from range_code_loop_passes [of True ?st P R 0 0] sim
  have "n' \<le> renorm_measure (k_max_bits P) (m_low ?st) (m_high ?st)"
    unfolding same by auto
  with renorm_measure_le [of "k_max_bits P" "m_low ?st" "m_high ?st"]
  have n': "n' \<le> k_max_bits P"
    by simp
  from wr n' have "written R st st1 0 c (k_max_bits P) bits"
    unfolding written_def by (elim conjE, intro conjI) simp_all
  moreover have "range_code P R s True st = Inr (c, st1\<lparr>m_stream := m_stream st\<rparr>)"
    using sim C ok unfolding same by (simp add: range_code_def Let_def)
  ultimately show ?thesis
    by blast
qed

text \<open>A coder over 8-bit counters and a 32-bit range, two symbols seen equally often,
  \<open>uf\<close> underflow bits pending.\<close>

definition pending_ac :: "nat \<Rightarrow> scalable_ac_c" where
  "pending_ac uf = \<lparr>m_stream = Some [], m_high = 255, m_low = 0, m_underflow_count = uf,
     m_tmp_range = 0, m_max_syms = 2, m_probability = Some [0, 1, 2], m_flushed = False\<rparr>"

lemmas eval_defs = range_code_def range_code_loop.simps renorm_shift_def
  update_probability_def update_model_def shift_low_eq shift_high_eq
  k_hi_bit_val_def k_low_bit_val_def k_low_bit_mask_def k_hi_bit_def
  k_max_bits_def k_max_range_def r_add_def r_sub_def r_mul_def range_bits_def p_add_def
  write_underflow_eq stream_write_1 drop_bit_eq_div

lemma encode_pending:
  "encode_symbol P_uint8 R_uint32 0 (pending_ac uf)
     = Inr \<lparr>m_stream = Some (False # replicate uf True), m_high = 255, m_low = 0,
         m_underflow_count = 0, m_tmp_range = 256, m_max_syms = 2,
         m_probability = Some [0, 2, 3], m_flushed = False\<rparr>"
  by (simp add: encode_symbol_def pending_ac_def eval_defs)

lemma estimate_pending:
  "estimate_cost P_uint8 R_uint32 0 (pending_ac uf)
     = Inr (Suc uf mod 2 ^ 32,
          \<lparr>m_stream = Some [], m_high = 255, m_low = 0,
         m_underflow_count = 0, m_tmp_range = 256, m_max_syms = 2,
         m_probability = Some [0, 2, 3], m_flushed = False\<rparr>)"
  by (simp add: estimate_cost_def pending_ac_def eval_defs)

text \<open>
  C6, amended: where \<open>encode_symbol(s)\<close> returns, \<open>estimate_cost(s)\<close> leaves \<open>low\<close>, \<open>high\<close>,
  \<open>underflow_count\<close>, the model and every other member as \<open>encode_symbol(s)\<close> does, leaves
  the stream as it was, and returns the number of bits \<open>encode_symbol(s)\<close> writes, counted
  in the range type: modulo \<open>2 ^ range_bits\<close>. The two numbers are equal when
  \<open>underflow_count + k_max_bits\<close> is below \<open>2 ^ range_bits\<close>.
\<close>

theorem estimate_cost_agrees:
  assumes "encode_symbol P R s st = Inr st'"
  shows "\<exists>bits. m_stream st' = map_option (\<lambda>out. out @ bits) (m_stream st)
     \<and> (m_stream st = None \<longrightarrow> bits = [])
     \<and> estimate_cost P R s st = Inr (length bits mod 2 ^ range_bits R, st'\<lparr>m_stream := m_stream st\<rparr>)
     \<and> length bits + m_underflow_count st' \<le> m_underflow_count st + k_max_bits P
     \<and> (m_underflow_count st + k_max_bits P < 2 ^ range_bits R \<longrightarrow>
          estimate_cost P R s st = Inr (length bits, st'\<lparr>m_stream := m_stream st\<rparr>))"
proof -
  from assms obtain c st1 where rc: "range_code P R s False st = Inr (c, st1)"
    and up: "update_probability P R s st1 = Inr st'"
    by (auto simp add: encode_symbol_def split: sum.splits)
  from range_code_simulate [OF rc] obtain bits
    where sim: "range_code P R s True st = Inr (c, st1\<lparr>m_stream := m_stream st\<rparr>)"
      and wr: "written R st st1 0 c (k_max_bits P) bits"
    by blast
  note f = update_probability_fields [OF up]
  from wr have w: "m_stream st1 = map_option (\<lambda>out. out @ bits) (m_stream st)"
      "m_stream st = None \<longrightarrow> bits = []" "c = length bits mod 2 ^ range_bits R"
      "length bits + m_underflow_count st1 \<le> m_underflow_count st + k_max_bits P"
    by (simp_all add: written_def)
  have e: "estimate_cost P R s st = Inr (c, st'\<lparr>m_stream := m_stream st\<rparr>)"
    using sim up by (simp add: estimate_cost_def update_probability_stream)
  have "c = length bits" if "m_underflow_count st + k_max_bits P < 2 ^ range_bits R"
    using that w(3,4) by simp
  with e w f show ?thesis
    by (intro exI [of _ bits]) simp
qed

theorem estimate_cost_agrees_witness:
  "encode_symbol P_uint8 R_uint32 0 (pending_ac 2)
     = Inr \<lparr>m_stream = Some [False, True, True], m_high = 255, m_low = 0,
         m_underflow_count = 0, m_tmp_range = 256, m_max_syms = 2,
         m_probability = Some [0, 2, 3], m_flushed = False\<rparr>
   \<and> estimate_cost P_uint8 R_uint32 0 (pending_ac 2)
     = Inr (3, \<lparr>m_stream = Some [], m_high = 255, m_low = 0,
         m_underflow_count = 0, m_tmp_range = 256, m_max_syms = 2,
         m_probability = Some [0, 2, 3], m_flushed = False\<rparr>)"
proof -
  have e: "encode_symbol P_uint8 R_uint32 0 (pending_ac 2)
     = Inr \<lparr>m_stream = Some [False, True, True], m_high = 255, m_low = 0,
         m_underflow_count = 0, m_tmp_range = 256, m_max_syms = 2,
         m_probability = Some [0, 2, 3], m_flushed = False\<rparr>"
    by (simp add: encode_pending numeral_2_eq_2)
  from estimate_cost_agrees [OF e] e show ?thesis
    by (auto simp add: pending_ac_def k_max_bits_def range_bits_def)
qed

text \<open>With \<open>2 ^ 32 - 1\<close> underflow bits pending, \<open>encode_symbol(0)\<close> writes \<open>2 ^ 32\<close> bits and
  \<open>estimate_cost(0)\<close> returns 0.\<close>

theorem estimate_cost_wraps_counterexample:
  "fst (projr (estimate_cost P_uint8 R_uint32 0 (pending_ac (2 ^ 32 - 1)))) = 0
   \<and> m_stream (projr (encode_symbol P_uint8 R_uint32 0 (pending_ac (2 ^ 32 - 1))))
     = Some (False # replicate (2 ^ 32 - 1) True)
   \<and> length (False # replicate (2 ^ 32 - 1) True) = 2 ^ 32"
  by (simp add: encode_pending estimate_pending)

section \<open>Snapshot neutrality\<close>

text \<open>A sequence of calls of \<open>estimate_cost\<close>, of one symbol or of a buffer with its limit.\<close>

datatype estimate_call = Estimate nat | Estimate_buf "nat list" nat

fun estimate_calls :: "probability_type_t \<Rightarrow> max_range_type_t \<Rightarrow> estimate_call list \<Rightarrow> scalable_ac_c
    \<Rightarrow> error + scalable_ac_c" where
  "estimate_calls P R [] st = Inr st"
| "estimate_calls P R (Estimate s # calls) st =
     (case estimate_cost P R s st of
        Inl e \<Rightarrow> Inl e
      | Inr (cost, st') \<Rightarrow> estimate_calls P R calls st')"
| "estimate_calls P R (Estimate_buf ss lim # calls) st =
     (case estimate_cost_buf P R ss lim 0 st of
        Inl e \<Rightarrow> Inl e
      | Inr (cost, st') \<Rightarrow> estimate_calls P R calls st')"

text \<open>What a cost estimate leaves of the encoder: the stream, the alphabet size, the
  length of the model array and its entries past the alphabet.\<close>

definition same_shape :: "max_range_type_t \<Rightarrow> scalable_ac_c \<Rightarrow> scalable_ac_c \<Rightarrow> bool" where
  "same_shape R st st' \<longleftrightarrow>
     m_stream st' = m_stream st \<and> m_max_syms st' = m_max_syms st
     \<and> (case (m_probability st, m_probability st') of
          (Some C, Some C') \<Rightarrow> length C' = length C
             \<and> drop (r_add R (m_max_syms st) 1) C' = drop (r_add R (m_max_syms st) 1) C
        | (None, None) \<Rightarrow> True
        | _ \<Rightarrow> False)"

lemma same_shape_refl: "same_shape R st st"
  by (simp add: same_shape_def split: option.splits)

lemma same_shape_trans: "same_shape R st st1 \<Longrightarrow> same_shape R st1 st2 \<Longrightarrow> same_shape R st st2"
  by (auto simp add: same_shape_def split: option.splits)

lemma scale_model_shape:
  assumes "scale_model P R n C = Inr C'"
  shows "length C' = length C \<and> drop (r_add R n 1) C' = drop (r_add R n 1) C"
proof (cases C)
  case Nil
  with assms show ?thesis by (simp add: scale_model_def)
next
  case (Cons prev rest)
  show ?thesis
  proof (cases "1 \<ge> r_add R n 1")
    case True
    with assms Cons show ?thesis by (simp add: scale_model_def)
  next
    case False
    with assms Cons have le: "r_add R n 1 \<le> length C"
      and C': "C' = prev # scale_model_loop P prev (take (r_add R n 1 - 1) rest) @ drop (r_add R n 1 - 1) rest"
      by (auto simp add: scale_model_def Let_def split: if_splits)
    from False obtain k where k: "r_add R n 1 = Suc k"
      by (cases "r_add R n 1") simp_all
    with le Cons have "k \<le> length rest" by simp
    then show ?thesis
      unfolding C' k Cons by (simp add: min_def)
  qed
qed

lemma update_model_shape:
  assumes "update_model P R n s C = Inr C'"
  shows "length C' = length C \<and> drop (r_add R n 1) C' = drop (r_add R n 1) C"
proof -
  let ?p0 = "r_add R s 1" and ?p1 = "r_add R n 1"
  define C1 where "C1 = (if ?p0 < ?p1
      then take ?p0 C @ increment_loop P (take (?p1 - ?p0) (drop ?p0 C)) @ drop ?p1 C else C)"
  from assms have ok: "?p0 < ?p1 \<longrightarrow> ?p1 \<le> length C"
    by (auto simp add: update_model_def Let_def split: if_splits)
  then have 1: "length C1 = length C \<and> drop ?p1 C1 = drop ?p1 C"
    by (auto simp add: C1_def min_def)
  from assms ok have "C' = C1 \<or> scale_model P R n C1 = Inr C'"
    unfolding update_model_def Let_def C1_def [symmetric]
    by (auto split: if_splits)
  with 1 scale_model_shape [of P R n C1 C'] show ?thesis
    by auto
qed

lemma range_code_loop_simulate_shape:
  assumes "range_code_loop P R True st cost n = Inr (c, st', n')"
  shows "m_stream st' = m_stream st \<and> m_max_syms st' = m_max_syms st
    \<and> m_probability st' = m_probability st \<and> m_flushed st' = m_flushed st"
proof -
  define I where "I s c \<longleftrightarrow> m_stream s = m_stream st \<and> m_max_syms s = m_max_syms st
      \<and> m_probability s = m_probability st \<and> m_flushed s = m_flushed st"
    for s :: scalable_ac_c and c :: nat
  have "I st cost"
    by (simp add: I_def)
  from range_code_loop_rule [of I, OF this, of True P R n] assms show ?thesis
    by (auto simp add: I_def)
qed

lemma estimate_cost_shape:
  assumes "estimate_cost P R s st = Inr (c, st')"
  shows "same_shape R st st'"
proof -
  from assms obtain c1 st1 where rc: "range_code P R s True st = Inr (c1, st1)"
    and up: "update_probability P R s st1 = Inr st'"
    by (auto simp add: estimate_cost_def split: sum.splits)
  from rc obtain C where C: "m_probability st = Some C"
    by (cases "m_probability st") (simp_all add: range_code_def)
  from rc C obtain st0 n' where "range_code_loop P R True st0 0 0 = Inr (c1, st1, n')"
    and "m_stream st0 = m_stream st" "m_max_syms st0 = m_max_syms st" "m_probability st0 = Some C"
    by (auto simp add: range_code_def Let_def split: if_splits sum.splits)
  with range_code_loop_simulate_shape [of P R st0 0 0 c1 st1 n']
  have 1: "m_stream st1 = m_stream st" "m_max_syms st1 = m_max_syms st" "m_probability st1 = Some C"
    by simp_all
  from up 1 obtain C' where "update_model P R (m_max_syms st) s C = Inr C'"
    and st': "st' = st1\<lparr>m_probability := Some C'\<rparr>"
    by (auto simp add: update_probability_def split: sum.splits)
  from update_model_shape [OF this(1)] 1 C st' show ?thesis
    by (simp add: same_shape_def)
qed

lemma estimate_cost_buf_shape:
  "estimate_cost_buf P R ss lim cost st = Inr (c, st') \<Longrightarrow> same_shape R st st'"
proof (induction ss arbitrary: cost st)
  case Nil
  then show ?case by (simp add: same_shape_refl)
next
  case (Cons s ss)
  from Cons.prems obtain c1 st1 where e: "estimate_cost P R s st = Inr (c1, st1)"
    by (auto split: sum.splits)
  note 1 = estimate_cost_shape [OF e]
  show ?case
  proof (cases "r_add R cost c1 > lim")
    case True
    with Cons.prems e have "st' = st1" by (simp add: Let_def)
    with 1 show ?thesis by simp
  next
    case False
    with Cons.prems e have "estimate_cost_buf P R ss lim (r_add R cost c1) st1 = Inr (c, st')"
      by (simp add: Let_def)
    from same_shape_trans [OF 1 Cons.IH [OF this]] show ?thesis .
  qed
qed

lemma estimate_calls_shape:
  "estimate_calls P R calls st = Inr st' \<Longrightarrow> same_shape R st st'"
proof (induction calls arbitrary: st)
  case Nil
  then show ?case by (simp add: same_shape_refl)
next
  case (Cons call calls)
  show ?case
  proof (cases call)
    case (Estimate s)
    with Cons.prems obtain c st1 where e: "estimate_cost P R s st = Inr (c, st1)"
      and r: "estimate_calls P R calls st1 = Inr st'"
      by (auto split: sum.splits)
    from same_shape_trans [OF estimate_cost_shape [OF e] Cons.IH [OF r]] show ?thesis .
  next
    case (Estimate_buf ss lim)
    with Cons.prems obtain c st1 where e: "estimate_cost_buf P R ss lim 0 st = Inr (c, st1)"
      and r: "estimate_calls P R calls st1 = Inr st'"
      by (auto split: sum.splits)
    from same_shape_trans [OF estimate_cost_buf_shape [OF e] Cons.IH [OF r]] show ?thesis .
  qed
qed

lemma save_state_eq:
  assumes "save_state R st = Inr snap"
  shows "\<exists>C. m_probability st = Some C \<and> m_max_syms st < length C
    \<and> r_add R (m_max_syms st) 1 = Suc (m_max_syms st)
    \<and> snap = \<lparr>high = m_high st, low = m_low st,
                    underflow_count = m_underflow_count st, tmp_range = m_tmp_range st,
                    max_syms = m_max_syms st, probability = take (Suc (m_max_syms st)) C,
                    flushed = m_flushed st\<rparr>"
proof -
  from assms obtain C where C: "m_probability st = Some C"
    by (cases "m_probability st") (simp_all add: save_state_def)
  let ?n = "m_max_syms st"
  from assms C have n: "?n < length C" "?n < r_add R ?n 1"
    by (auto simp add: save_state_def copy_model_def new_array_def split: if_splits sum.splits)
  have "r_add R ?n 1 \<le> ?n + 1"
    by (rule r_add_le)
  with n have r: "r_add R ?n 1 = Suc ?n"
    by simp
  with assms C n show ?thesis
    by (auto simp add: save_state_def copy_model_def new_array_def split: sum.splits)
qed

lemma save_pending:
  "save_state R_uint32 (pending_ac 2)
     = Inr \<lparr>high = 255, low = 0, underflow_count = 2, tmp_range = 0, max_syms = 2,
           probability = [0, 1, 2], flushed = False\<rparr>"
  by (simp add: save_state_def pending_ac_def copy_model_def new_array_def r_add_def range_bits_def)

lemma calls_pending:
  "estimate_calls P_uint8 R_uint32 [Estimate 0, Estimate_buf [1, 0] 100] (pending_ac 2)
     = Inr \<lparr>m_stream = Some [], m_high = 211, m_low = 40, m_underflow_count = 1,
         m_tmp_range = 172, m_max_syms = 2, m_probability = Some [0, 3, 5], m_flushed = False\<rparr>"
  by (simp add: estimate_cost_def pending_ac_def eval_defs)

text \<open>
  C7: when \<open>save_state\<close> returns a snapshot and the calls of \<open>estimate_cost\<close> that follow
  all return, \<open>restore_state(snapshot, true)\<close> returns \<open>true\<close> and leaves the encoder as it
  was at the save: \<open>low\<close>, \<open>high\<close>, \<open>underflow_count\<close>, \<open>flushed\<close>, \<open>tmp_range\<close>, \<open>max_syms\<close>,
  the model and the stream. Restoring the snapshot into an encoder of another alphabet
  size allocates the array anew and gives the same members, the stream being that
  encoder's own.
\<close>

theorem snapshot_neutral:
  assumes save: "save_state R st = Inr snap" and calls: "estimate_calls P R calls st = Inr st1"
  shows "restore_state R (Some snap) True st1 = Inr (True, st)
    \<and> (\<forall>cur. m_max_syms cur \<noteq> m_max_syms st
          \<and> length (the (m_probability st)) = Suc (m_max_syms st) \<longrightarrow>
          restore_state R (Some snap) True cur = Inr (True, st\<lparr>m_stream := m_stream cur\<rparr>))"
proof (intro conjI allI impI)
  let ?n = "m_max_syms st"
  from save_state_eq [OF save] obtain C where C: "m_probability st = Some C"
    and n: "?n < length C" and r: "r_add R ?n 1 = Suc ?n"
    and snap: "snap = \<lparr>high = m_high st, low = m_low st,
                    underflow_count = m_underflow_count st, tmp_range = m_tmp_range st,
                    max_syms = ?n, probability = take (Suc ?n) C, flushed = m_flushed st\<rparr>"
    by blast
  from estimate_calls_shape [OF calls] C obtain C1
    where 1: "m_stream st1 = m_stream st" "m_max_syms st1 = ?n" "m_probability st1 = Some C1"
      "length C1 = length C" "drop (Suc ?n) C1 = drop (Suc ?n) C"
    unfolding same_shape_def r by (auto split: option.splits)
  have "copy_model ?n (take (Suc ?n) C) C1 = Inr C"
    using n 1 by (simp add: copy_model_def min_def)
  with 1 C show "restore_state R (Some snap) True st1 = Inr (True, st)"
    unfolding snap by (simp add: restore_state_def)
  fix cur :: scalable_ac_c
  assume cur: "m_max_syms cur \<noteq> m_max_syms st
          \<and> length (the (m_probability st)) = Suc (m_max_syms st)"
  with C have len: "length C = Suc ?n"
    by simp
  then have "copy_model ?n (take (Suc ?n) C) (new_array (Suc ?n)) = Inr C"
    by (simp add: copy_model_def new_array_def)
  moreover have "r_add R ?n (Suc 0) = Suc ?n"
    using r by simp
  ultimately show "restore_state R (Some snap) True cur = Inr (True, st\<lparr>m_stream := m_stream cur\<rparr>)"
    using cur C unfolding snap by (simp add: restore_state_def)
qed

theorem snapshot_neutral_witness:
  "restore_state R_uint32 (Some (projr (save_state R_uint32 (pending_ac 2)))) True
      (projr (estimate_calls P_uint8 R_uint32 [Estimate 0, Estimate_buf [1, 0] 100] (pending_ac 2)))
     = Inr (True, pending_ac 2)
   \<and> m_probability (projr (estimate_calls P_uint8 R_uint32
         [Estimate 0, Estimate_buf [1, 0] 100] (pending_ac 2))) = Some [0, 3, 5]"
  using snapshot_neutral [OF save_pending calls_pending]
  unfolding save_pending calls_pending by simp

end
